theory Spec2Isabelle
  imports Main "HOL-Library.Word"
begin

section \<open>Errors, outcomes and bytes\<close>

text \<open>
  Go's \<open>error\<close> values that occur in package \<open>fastio\<close>: the two package-level values
  \<open>io.EOF\<close> and \<open>io.ErrShortWrite\<close>, errors made by \<open>errors.New\<close> (the no-digits error of the
  tokenizers, and the failures a source or sink reports), and the wrapper \<open>writerError\<close> of
  writer.go.
\<close>

datatype error = EOF | ErrShortWrite | errors_New string | writerError error

text \<open>The method \<open>Error()\<close>: the message of an error.\<close>

fun Error :: "error \<Rightarrow> string" where
  "Error EOF = ''EOF''"
| "Error ErrShortWrite = ''short write''"
| "Error (errors_New m) = m"
| "Error (writerError e) = Error e"

text \<open>
  \<open>errors.Is(err, io.EOF)\<close>: the error is \<open>io.EOF\<close> itself, or its method \<open>Is\<close> accepts
  \<open>io.EOF\<close> (\<open>writerError.Is\<close> compares the messages), or what it unwraps to is.
\<close>

fun errors_Is_EOF :: "error \<Rightarrow> bool" where
  "errors_Is_EOF EOF = True"
| "errors_Is_EOF (writerError e) = (Error e = ''EOF'' \<or> errors_Is_EOF e)"
| "errors_Is_EOF ErrShortWrite = False"
| "errors_Is_EOF (errors_New m) = False"

text \<open>
  A Go call either returns or panics (an index or a slice bound out of range).
\<close>

datatype 'a outcome = Panic | Return 'a

type_synonym byte = char

text \<open>Go's \<open>int\<close> where its wrap-around matters (the value accumulated by \<open>NextInt\<close>).\<close>

type_synonym go_int = "64 word"

text \<open>\<open>xs[i]\<close>: the byte at index \<open>i\<close>, a panic out of range.\<close>

definition index :: "byte list \<Rightarrow> int \<Rightarrow> byte outcome" where
  "index xs i = (if 0 \<le> i \<and> i < int (length xs) then Return (xs ! nat i) else Panic)"

section \<open>The byte source (\<open>io.Reader\<close>)\<close>

text \<open>
  One call of \<open>Read(p)\<close> answers with the bytes it stored at the front of \<open>p\<close>, the count it
  reports and an optional failure. A source is the list of the answers it still has to
  give, and the number of calls it has received; once the list is used up it answers
  \<open>(0, io.EOF)\<close>, as \<open>strings.Reader\<close>, \<open>bytes.Reader\<close> and a file do. The reported count is
  whatever the source says: it may differ from the number of bytes stored, and be negative.
  No call can store more than \<open>len(p)\<close> bytes.
\<close>

type_synonym response = "byte list \<times> int \<times> error option"

record source =
  script :: "response list"
  calls :: nat

definition Read :: "source \<Rightarrow> nat \<Rightarrow> response \<times> source" where
  "Read src len_p =
     (case script src of
        [] \<Rightarrow> (([], 0, Some EOF), src\<lparr>calls := Suc (calls src)\<rparr>)
      | (d, c, e) # rs \<Rightarrow> ((take len_p d, c, e), \<lparr>script = rs, calls = Suc (calls src)\<rparr>))"

section \<open>The read engine (\<open>FastReader\<close>)\<close>

record FastReader =
  fr_r :: source
  fr_buf :: "byte list"
  fr_pos :: int
  fr_n :: int
  fr_err :: "error option"

definition defaultReaderBufSize :: nat where
  "defaultReaderBufSize = 64 * 1024"

definition NewReader :: "source \<Rightarrow> FastReader" where
  "NewReader src =
     \<lparr>fr_r = src, fr_buf = replicate defaultReaderBufSize (CHR 0x00),
      fr_pos = 0, fr_n = 0, fr_err = None\<rparr>"

definition Err :: "FastReader \<Rightarrow> error option" where
  "Err fr = fr_err fr"

definition fill :: "FastReader \<Rightarrow> FastReader" where
  "fill fr =
     (if fr_err fr \<noteq> None then fr
      else
        (case Read (fr_r fr) (length (fr_buf fr)) of
           ((d, c, e), src') \<Rightarrow>
             let k = (if c < 0 then 0 else c);
                 fr1 = fr\<lparr>fr_r := src', fr_buf := d @ drop (length d) (fr_buf fr),
                         fr_n := k, fr_pos := 0\<rparr>
             in (case e of None \<Rightarrow> fr1 | Some x \<Rightarrow> fr1\<lparr>fr_err := Some x\<rparr>)))"

definition ensureData :: "FastReader \<Rightarrow> error option \<times> FastReader" where
  "ensureData fr =
     (if fr_err fr \<noteq> None \<and> \<not> (fr_err fr = Some EOF \<and> fr_pos fr < fr_n fr)
      then (fr_err fr, fr)
      else if fr_pos fr \<ge> fr_n fr then
        (let fr1 = fill fr in
         if fr_n fr1 = 0 then
           (let fr2 = (if fr_err fr1 = None then fr1\<lparr>fr_err := Some EOF\<rparr> else fr1)
            in (fr_err fr2, fr2))
         else (None, fr1))
      else (None, fr))"

definition PeekByte :: "FastReader \<Rightarrow> (byte \<times> error option \<times> FastReader) outcome" where
  "PeekByte fr =
     (case ensureData fr of
        (Some e, fr1) \<Rightarrow> Return (CHR 0x00, Some e, fr1)
      | (None, fr1) \<Rightarrow>
          (case index (fr_buf fr1) (fr_pos fr1) of
             Panic \<Rightarrow> Panic
           | Return b \<Rightarrow> Return (b, None, fr1)))"

text \<open>The last two statements of \<open>ReadByte\<close>.\<close>

definition ReadByte_end :: "byte \<Rightarrow> FastReader \<Rightarrow> (byte \<times> error option \<times> FastReader) outcome" where
  "ReadByte_end b fr =
     (if fr_pos fr \<ge> fr_n fr \<and> fr_err fr \<noteq> None then Return (b, fr_err fr, fr)
      else Return (b, None, fr))"

definition ReadByte :: "FastReader \<Rightarrow> (byte \<times> error option \<times> FastReader) outcome" where
  "ReadByte fr =
     (case ensureData fr of
        (Some e, fr1) \<Rightarrow> Return (CHR 0x00, Some e, fr1)
      | (None, fr1) \<Rightarrow>
          (case index (fr_buf fr1) (fr_pos fr1) of
             Panic \<Rightarrow> Panic
           | Return b \<Rightarrow>
               let fr2 = fr1\<lparr>fr_pos := fr_pos fr1 + 1\<rparr> in
                 if fr_pos fr2 \<ge> fr_n fr2 then
                   (let fr3 = (if fr_err fr2 = None then fill fr2 else fr2) in
                    if fr_n fr3 = 0 then
                      (let fr4 = (if fr_err fr3 = None then fr3\<lparr>fr_err := Some EOF\<rparr> else fr3)
                       in Return (b, fr_err fr4, fr4))
                    else ReadByte_end b fr3)
                 else ReadByte_end b fr2))"

text \<open>\<open>_, _ = fr.ReadByte()\<close>: the call made for its effect on the reader only.\<close>

definition ReadByte_discard :: "FastReader \<Rightarrow> FastReader outcome" where
  "ReadByte_discard fr =
     (case ReadByte fr of Panic \<Rightarrow> Panic | Return (b, e, fr1) \<Rightarrow> Return fr1)"

definition isSpace :: "byte \<Rightarrow> bool" where
  "isSpace b \<longleftrightarrow> b = CHR '' '' \<or> b = CHR 0x0A \<or> b = CHR 0x0D \<or> b = CHR 0x09"

text \<open>\<open>b < '0' || b > '9'\<close> on the byte values.\<close>

definition notDigit :: "byte \<Rightarrow> bool" where
  "notDigit b \<longleftrightarrow> (of_char b :: nat) < 48 \<or> (of_char b :: nat) > 57"

text \<open>\<open>int(b - '0')\<close>: the subtraction is on bytes (modulo 256), the result widened to \<open>int\<close>.\<close>

definition digitVal :: "byte \<Rightarrow> go_int" where
  "digitVal b = of_nat (((of_char b :: nat) + 256 - 48) mod 256)"

text \<open>
  The measure under which every loop of the read engine ends: the answers the source still
  has to give, then the unread bytes of the buffer.
\<close>

definition fr_rel :: "(FastReader \<times> FastReader) set" where
  "fr_rel = measures [\<lambda>fr. length (script (fr_r fr)), \<lambda>fr. nat (fr_n fr - fr_pos fr)]"

subsection \<open>Every loop of the read engine ends\<close>

lemma fill_script_le: "length (script (fr_r (fill fr))) \<le> length (script (fr_r fr))"
  by (auto simp: fill_def Read_def Let_def split: list.splits option.splits prod.splits)

lemma fill_measure:
  "fr_err fr = None \<Longrightarrow>
   length (script (fr_r (fill fr))) < length (script (fr_r fr)) \<or>
   (length (script (fr_r (fill fr))) = length (script (fr_r fr)) \<and> fr_n (fill fr) = 0 \<and> fr_pos (fill fr) = 0)"
  by (auto simp: fill_def Read_def Let_def split: list.splits option.splits prod.splits)

lemma fill_n_nonneg: "fr_err fr = None \<Longrightarrow> 0 \<le> fr_n (fill fr) \<and> fr_pos (fill fr) = 0"
  by (auto simp: fill_def Read_def Let_def split: list.splits option.splits prod.splits)

lemma ensureData_None:
  "ensureData fr = (None, fr1) \<Longrightarrow>
     (fr1 = fr \<and> fr_pos fr < fr_n fr \<and> (fr_err fr = None \<or> fr_err fr = Some EOF)) \<or>
     (length (script (fr_r fr1)) < length (script (fr_r fr)))"
  using fill_measure[of fr]
  by (auto simp: ensureData_def Let_def split: if_splits)

lemma ensureData_weak:
  "ensureData fr = (e, fr1) \<Longrightarrow>
     length (script (fr_r fr1)) < length (script (fr_r fr)) \<or>
     (length (script (fr_r fr1)) = length (script (fr_r fr)) \<and>
      nat (fr_n fr1 - fr_pos fr1) \<le> nat (fr_n fr - fr_pos fr))"
  using fill_measure[of fr]
  by (auto simp: ensureData_def Let_def split: if_splits)

lemma ensureData_idem:
  "fr_pos fr < fr_n fr \<Longrightarrow> fr_err fr = None \<or> fr_err fr = Some EOF \<Longrightarrow> ensureData fr = (None, fr)"
  by (auto simp: ensureData_def)

lemma ReadByte_via:
  "ReadByte fr = Return (b, e, fr2) \<Longrightarrow> ensureData fr = (None, fr1) \<Longrightarrow>
    length (script (fr_r fr2)) < length (script (fr_r fr1)) \<or>
     (length (script (fr_r fr2)) = length (script (fr_r fr1)) \<and>
      nat (fr_n fr2 - fr_pos fr2) \<le> nat (fr_n fr1 - fr_pos fr1) \<and>
      (fr_pos fr1 < fr_n fr1 \<longrightarrow> nat (fr_n fr2 - fr_pos fr2) < nat (fr_n fr1 - fr_pos fr1)))"
  using fill_measure[of "fr1\<lparr>fr_pos := fr_pos fr1 + 1\<rparr>"]
  by (auto simp: ReadByte_def Let_def ReadByte_end_def split: outcome.splits if_splits)

lemma ReadByte_weak:
  "ReadByte fr = Return (b, e, fr2) \<Longrightarrow>
     length (script (fr_r fr2)) < length (script (fr_r fr)) \<or>
     (length (script (fr_r fr2)) = length (script (fr_r fr)) \<and>
      nat (fr_n fr2 - fr_pos fr2) \<le> nat (fr_n fr - fr_pos fr))"
proof (cases "ensureData fr")
  case (Pair e1 fr1)
  assume rb: "ReadByte fr = Return (b, e, fr2)"
  show ?thesis
  proof (cases e1)
    case None
    with Pair ReadByte_via[OF rb, of fr1] ensureData_weak[of fr e1 fr1] show ?thesis by auto
  next
    case (Some x)
    with Pair rb have "fr2 = fr1" by (simp add: ReadByte_def)
    with Pair ensureData_weak[of fr e1 fr1] show ?thesis by auto
  qed
qed

lemma ReadByte_strict:
  "ReadByte fr = Return (b, e, fr2) \<Longrightarrow> fr_pos fr < fr_n fr \<Longrightarrow>
   fr_err fr = None \<or> fr_err fr = Some EOF \<Longrightarrow> (fr2, fr) \<in> fr_rel"
  apply (frule (1) ensureData_idem)
  apply (drule (1) ReadByte_via)
  apply (auto simp: fr_rel_def)
  done

lemma Peek_Read_decreases:
  "PeekByte fr = Return (b, None, fr1) \<Longrightarrow> ReadByte_discard fr1 = Return fr2 \<Longrightarrow> (fr2, fr) \<in> fr_rel"
  apply (simp add: PeekByte_def ReadByte_discard_def split: prod.splits option.splits outcome.splits)
  apply (drule ensureData_None)
  apply (erule disjE)
   apply (auto dest: ReadByte_strict)[1]
  apply (drule ReadByte_weak)
  apply (auto simp: fr_rel_def)
  done

lemma ReadByte_None_ensureData:
  "ReadByte fr = Return (b, None, fr2) \<Longrightarrow> \<exists>fr1. ensureData fr = (None, fr1)"
  by (cases "ensureData fr") (auto simp: ReadByte_def split: option.splits)

lemma ReadByte_decreases:
  "ReadByte fr = Return (b, None, fr2) \<Longrightarrow> (fr2, fr) \<in> fr_rel"
proof -
  assume rb: "ReadByte fr = Return (b, None, fr2)"
  then obtain fr1 where ed: "ensureData fr = (None, fr1)"
    using ReadByte_None_ensureData by blast
  from ensureData_None[OF ed] show ?thesis
  proof
    assume "fr1 = fr \<and> fr_pos fr < fr_n fr \<and> (fr_err fr = None \<or> fr_err fr = Some EOF)"
    with rb show ?thesis by (auto dest: ReadByte_strict)
  next
    assume "length (script (fr_r fr1)) < length (script (fr_r fr))"
    with ReadByte_via[OF rb ed] show ?thesis by (auto simp add: fr_rel_def)
  qed
qed

lemma wf_fr_rel: "wf fr_rel"
  by (simp add: fr_rel_def)

subsection \<open>The tokenizers\<close>

function SkipSpaces :: "FastReader \<Rightarrow> (error option \<times> FastReader) outcome" where
  "SkipSpaces fr =
     (case PeekByte fr of
        Panic \<Rightarrow> Panic
      | Return (b, Some e, fr1) \<Rightarrow>
          if errors_Is_EOF e then Return (None, fr1) else Return (Some e, fr1)
      | Return (b, None, fr1) \<Rightarrow>
          if isSpace b then
            (case ReadByte_discard fr1 of
               Panic \<Rightarrow> Panic
             | Return fr2 \<Rightarrow> SkipSpaces fr2)
          else Return (None, fr1))"
  by pat_completeness auto
termination
  by (relation fr_rel) (auto simp: wf_fr_rel intro: Peek_Read_decreases)

text \<open>The statements of \<open>NextWord\<close> after its loop.\<close>

definition NextWord_end :: "byte list \<Rightarrow> FastReader \<Rightarrow> (string \<times> error option \<times> FastReader) outcome" where
  "NextWord_end buf fr = (if length buf = 0 then Return ([], Some EOF, fr) else Return (buf, None, fr))"

function NextWord_loop :: "FastReader \<Rightarrow> byte list \<Rightarrow> (string \<times> error option \<times> FastReader) outcome" where
  "NextWord_loop fr buf =
     (case PeekByte fr of
        Panic \<Rightarrow> Panic
      | Return (b, Some e, fr1) \<Rightarrow>
          if errors_Is_EOF e then
            (if length buf = 0 then Return ([], Some EOF, fr1) else Return (buf, None, fr1))
          else Return ([], Some e, fr1)
      | Return (b, None, fr1) \<Rightarrow>
          if isSpace b then NextWord_end buf fr1
          else
            (case ReadByte_discard fr1 of
               Panic \<Rightarrow> Panic
             | Return fr2 \<Rightarrow> NextWord_loop fr2 (buf @ [b])))"
  by pat_completeness auto
termination
  by (relation "inv_image fr_rel fst") (auto simp: wf_fr_rel intro: Peek_Read_decreases)

definition NextWord :: "FastReader \<Rightarrow> (string \<times> error option \<times> FastReader) outcome" where
  "NextWord fr =
     (case SkipSpaces fr of
        Panic \<Rightarrow> Panic
      | Return (Some e, fr1) \<Rightarrow>
          if errors_Is_EOF e then Return ([], Some EOF, fr1) else Return ([], Some e, fr1)
      | Return (None, fr1) \<Rightarrow> NextWord_loop fr1 [])"

text \<open>The statements of \<open>NextInt\<close> after its loop.\<close>

definition NextInt_end :: "go_int \<Rightarrow> go_int \<Rightarrow> int \<Rightarrow> FastReader \<Rightarrow> (go_int \<times> error option \<times> FastReader) outcome" where
  "NextInt_end sign val digitsRead fr =
     (if digitsRead = 0 then Return (0, Some (errors_New ''fastio: NextInt: no digits found''), fr)
      else Return (sign * val, None, fr))"

function NextInt_loop :: "FastReader \<Rightarrow> go_int \<Rightarrow> go_int \<Rightarrow> int \<Rightarrow> (go_int \<times> error option \<times> FastReader) outcome" where
  "NextInt_loop fr sign val digitsRead =
     (case PeekByte fr of
        Panic \<Rightarrow> Panic
      | Return (b, Some e, fr1) \<Rightarrow>
          if errors_Is_EOF e then NextInt_end sign val digitsRead fr1
          else Return (0, Some e, fr1)
      | Return (b, None, fr1) \<Rightarrow>
          if notDigit b then NextInt_end sign val digitsRead fr1
          else
            (case ReadByte_discard fr1 of
               Panic \<Rightarrow> Panic
             | Return fr2 \<Rightarrow> NextInt_loop fr2 sign (val * 10 + digitVal b) (digitsRead + 1)))"
  by pat_completeness auto
termination
  by (relation "inv_image fr_rel fst") (auto simp: wf_fr_rel intro: Peek_Read_decreases)

definition NextInt :: "FastReader \<Rightarrow> (go_int \<times> error option \<times> FastReader) outcome" where
  "NextInt fr =
     (case SkipSpaces fr of
        Panic \<Rightarrow> Panic
      | Return (Some e, fr1) \<Rightarrow> Return (0, Some e, fr1)
      | Return (None, fr1) \<Rightarrow>
          (case PeekByte fr1 of
             Panic \<Rightarrow> Panic
           | Return (b, Some e, fr2) \<Rightarrow> Return (0, Some e, fr2)
           | Return (b, None, fr2) \<Rightarrow>
               if b = CHR ''-'' then
                 (case ReadByte_discard fr2 of
                    Panic \<Rightarrow> Panic
                  | Return fr3 \<Rightarrow> NextInt_loop fr3 (- 1) 0 0)
               else if b = CHR ''+'' then
                 (case ReadByte_discard fr2 of
                    Panic \<Rightarrow> Panic
                  | Return fr3 \<Rightarrow> NextInt_loop fr3 1 0 0)
               else NextInt_loop fr2 1 0 0))"

text \<open>\<open>NextInt64\<close>: the statements of \<open>NextInt\<close> on \<open>int64\<close>, with its own error text.\<close>

type_synonym int64 = "64 word"

type_synonym uint64 = "64 word"

definition NextInt64_end :: "int64 \<Rightarrow> int64 \<Rightarrow> int \<Rightarrow> FastReader \<Rightarrow> (int64 \<times> error option \<times> FastReader) outcome" where
  "NextInt64_end sign val digitsRead fr =
     (if digitsRead = 0 then Return (0, Some (errors_New ''fastio: NextInt64: no digits found''), fr)
      else Return (sign * val, None, fr))"

function NextInt64_loop :: "FastReader \<Rightarrow> int64 \<Rightarrow> int64 \<Rightarrow> int \<Rightarrow> (int64 \<times> error option \<times> FastReader) outcome" where
  "NextInt64_loop fr sign val digitsRead =
     (case PeekByte fr of
        Panic \<Rightarrow> Panic
      | Return (b, Some e, fr1) \<Rightarrow>
          if errors_Is_EOF e then NextInt64_end sign val digitsRead fr1
          else Return (0, Some e, fr1)
      | Return (b, None, fr1) \<Rightarrow>
          if notDigit b then NextInt64_end sign val digitsRead fr1
          else
            (case ReadByte_discard fr1 of
               Panic \<Rightarrow> Panic
             | Return fr2 \<Rightarrow> NextInt64_loop fr2 sign (val * 10 + digitVal b) (digitsRead + 1)))"
  by pat_completeness auto
termination
  by (relation "inv_image fr_rel fst") (auto simp: wf_fr_rel intro: Peek_Read_decreases)

definition NextInt64 :: "FastReader \<Rightarrow> (int64 \<times> error option \<times> FastReader) outcome" where
  "NextInt64 fr =
     (case SkipSpaces fr of
        Panic \<Rightarrow> Panic
      | Return (Some e, fr1) \<Rightarrow> Return (0, Some e, fr1)
      | Return (None, fr1) \<Rightarrow>
          (case PeekByte fr1 of
             Panic \<Rightarrow> Panic
           | Return (b, Some e, fr2) \<Rightarrow> Return (0, Some e, fr2)
           | Return (b, None, fr2) \<Rightarrow>
               if b = CHR ''-'' then
                 (case ReadByte_discard fr2 of
                    Panic \<Rightarrow> Panic
                  | Return fr3 \<Rightarrow> NextInt64_loop fr3 (- 1) 0 0)
               else if b = CHR ''+'' then
                 (case ReadByte_discard fr2 of
                    Panic \<Rightarrow> Panic
                  | Return fr3 \<Rightarrow> NextInt64_loop fr3 1 0 0)
               else NextInt64_loop fr2 1 0 0))"

text \<open>\<open>NextUint64\<close>: only a leading \<open>+\<close> is consumed.\<close>

definition NextUint64_end :: "uint64 \<Rightarrow> int \<Rightarrow> FastReader \<Rightarrow> (uint64 \<times> error option \<times> FastReader) outcome" where
  "NextUint64_end val digitsRead fr =
     (if digitsRead = 0 then Return (0, Some (errors_New ''fastio: NextUint64: no digits found''), fr)
      else Return (val, None, fr))"

function NextUint64_loop :: "FastReader \<Rightarrow> uint64 \<Rightarrow> int \<Rightarrow> (uint64 \<times> error option \<times> FastReader) outcome" where
  "NextUint64_loop fr val digitsRead =
     (case PeekByte fr of
        Panic \<Rightarrow> Panic
      | Return (b, Some e, fr1) \<Rightarrow>
          if errors_Is_EOF e then NextUint64_end val digitsRead fr1
          else Return (0, Some e, fr1)
      | Return (b, None, fr1) \<Rightarrow>
          if notDigit b then NextUint64_end val digitsRead fr1
          else
            (case ReadByte_discard fr1 of
               Panic \<Rightarrow> Panic
             | Return fr2 \<Rightarrow> NextUint64_loop fr2 (val * 10 + digitVal b) (digitsRead + 1)))"
  by pat_completeness auto
termination
  by (relation "inv_image fr_rel fst") (auto simp: wf_fr_rel intro: Peek_Read_decreases)

definition NextUint64 :: "FastReader \<Rightarrow> (uint64 \<times> error option \<times> FastReader) outcome" where
  "NextUint64 fr =
     (case SkipSpaces fr of
        Panic \<Rightarrow> Panic
      | Return (Some e, fr1) \<Rightarrow> Return (0, Some e, fr1)
      | Return (None, fr1) \<Rightarrow>
          (case PeekByte fr1 of
             Panic \<Rightarrow> Panic
           | Return (b, Some e, fr2) \<Rightarrow> Return (0, Some e, fr2)
           | Return (b, None, fr2) \<Rightarrow>
               if b = CHR ''+'' then
                 (case ReadByte_discard fr2 of
                    Panic \<Rightarrow> Panic
                  | Return fr3 \<Rightarrow> NextUint64_loop fr3 0 0)
               else NextUint64_loop fr2 0 0))"

text \<open>
  \<open>NextFloat64\<close>: \<open>NextWord\<close>, then \<open>strconv.ParseFloat(token, 64)\<close> of Go's standard library,
  which is a parameter here, as is the type of its values.
\<close>

definition NextFloat64 ::
  "(string \<Rightarrow> error + 'f) \<Rightarrow> FastReader \<Rightarrow> ('f::zero \<times> error option \<times> FastReader) outcome" where
  "NextFloat64 ParseFloat fr =
     (case NextWord fr of
        Panic \<Rightarrow> Panic
      | Return (token, Some e, fr1) \<Rightarrow> Return (0, Some e, fr1)
      | Return (token, None, fr1) \<Rightarrow>
          (case ParseFloat token of
             Inl e \<Rightarrow> Return (0, Some e, fr1)
           | Inr v \<Rightarrow> Return (v, None, fr1)))"

text \<open>The statements of \<open>NextLine\<close> after its loop: a final carriage return is dropped.\<close>

definition NextLine_end :: "byte list \<Rightarrow> FastReader \<Rightarrow> (string \<times> error option \<times> FastReader) outcome" where
  "NextLine_end buf fr =
     (if length buf > 0 \<and> buf ! (length buf - 1) = CHR 0x0D
      then Return (take (length buf - 1) buf, None, fr)
      else Return (buf, None, fr))"

function NextLine_loop :: "FastReader \<Rightarrow> byte list \<Rightarrow> (string \<times> error option \<times> FastReader) outcome" where
  "NextLine_loop fr buf =
     (case ReadByte fr of
        Panic \<Rightarrow> Panic
      | Return (b, Some e, fr1) \<Rightarrow>
          if errors_Is_EOF e then
            (if length buf = 0 then Return ([], Some EOF, fr1) else NextLine_end buf fr1)
          else Return ([], Some e, fr1)
      | Return (b, None, fr1) \<Rightarrow>
          if b = CHR 0x0A then NextLine_end buf fr1
          else NextLine_loop fr1 (buf @ [b]))"
  by pat_completeness auto
termination
  by (relation "inv_image fr_rel fst") (auto simp: wf_fr_rel intro: ReadByte_decreases)

definition NextLine :: "FastReader \<Rightarrow> (string \<times> error option \<times> FastReader) outcome" where
  "NextLine fr = NextLine_loop fr []"

declare SkipSpaces.simps [simp del] NextWord_loop.simps [simp del]
  NextInt_loop.simps [simp del] NextInt64_loop.simps [simp del]
  NextUint64_loop.simps [simp del] NextLine_loop.simps [simp del]

section \<open>The read engine over a well-behaved source\<close>

text \<open>The unread bytes of the buffer: \<open>buf[pos:n]\<close>.\<close>

definition avail :: "FastReader \<Rightarrow> byte list" where
  "avail fr = take (nat (fr_n fr - fr_pos fr)) (drop (nat (fr_pos fr)) (fr_buf fr))"

text \<open>
  A source that keeps the contract of \<open>io.Reader\<close>: every answer reports the number of bytes
  it stored, at most the length of the buffer, and fails with \<open>io.EOF\<close> only; it may hand
  over its last bytes together with \<open>io.EOF\<close>, and may end with an answer of no bytes and no
  failure.
\<close>

fun wellBehaved :: "nat \<Rightarrow> response list \<Rightarrow> bool" where
  "wellBehaved cap [] = True"
| "wellBehaved cap ((d, c, e) # rs) =
     (c = int (length d) \<and> length d \<le> cap \<and>
      (case e of None \<Rightarrow> d = [] \<or> wellBehaved cap rs | Some x \<Rightarrow> x = EOF))"

text \<open>The bytes such a source delivers before the read engine takes it to have ended.\<close>

fun content :: "response list \<Rightarrow> byte list" where
  "content [] = []"
| "content ((d, c, e) # rs) =
     (case e of None \<Rightarrow> if d = [] then [] else d @ content rs | Some x \<Rightarrow> d)"

text \<open>
  A reader in a state reached over such a source, and the input it has not yet consumed:
  the unread bytes of the buffer, then what the source still delivers.
\<close>

definition good :: "FastReader \<Rightarrow> bool" where
  "good fr \<longleftrightarrow>
     0 \<le> fr_pos fr \<and> fr_pos fr \<le> fr_n fr \<and> fr_n fr \<le> int (length (fr_buf fr)) \<and>
     (case fr_err fr of None \<Rightarrow> wellBehaved (length (fr_buf fr)) (script (fr_r fr))
      | Some x \<Rightarrow> x = EOF)"

definition rest :: "FastReader \<Rightarrow> byte list" where
  "rest fr = avail fr @ (case fr_err fr of None \<Rightarrow> content (script (fr_r fr)) | Some x \<Rightarrow> [])"

lemma avail_Cons:
  "0 \<le> fr_pos fr \<Longrightarrow> fr_pos fr < fr_n fr \<Longrightarrow> fr_n fr \<le> int (length (fr_buf fr)) \<Longrightarrow>
   avail fr = fr_buf fr ! nat (fr_pos fr) # avail (fr\<lparr>fr_pos := fr_pos fr + 1\<rparr>)"
proof -
  assume a: "0 \<le> fr_pos fr" "fr_pos fr < fr_n fr" "fr_n fr \<le> int (length (fr_buf fr))"
  then have lt: "nat (fr_pos fr) < length (fr_buf fr)" by linarith
  have n1: "nat (fr_n fr - fr_pos fr) = Suc (nat (fr_n fr - (fr_pos fr + 1)))" using a by linarith
  have n2: "nat (fr_pos fr + 1) = Suc (nat (fr_pos fr))" using a by linarith
  show ?thesis
    unfolding avail_def by (simp add: n1 n2 Cons_nth_drop_Suc[OF lt, symmetric])
qed

lemma avail_empty: "fr_n fr \<le> fr_pos fr \<Longrightarrow> avail fr = []"
  by (simp add: avail_def)

text \<open>
  A refill followed by the statement \<open>if fr.n == 0 { if fr.err == nil { fr.err = io.EOF } }\<close>
  that follows it in \<open>ensureData\<close> and in \<open>ReadByte\<close>.
\<close>

definition fill_eof :: "FastReader \<Rightarrow> FastReader" where
  "fill_eof fr = (let f = fill fr in if fr_n f = 0 \<and> fr_err f = None then f\<lparr>fr_err := Some EOF\<rparr> else f)"

lemma fill_good:
  assumes "good fr" "fr_err fr = None" "fr_n fr \<le> fr_pos fr"
  shows "good (fill_eof fr) \<and> rest (fill_eof fr) = rest fr \<and> fr_pos (fill_eof fr) = 0 \<and>
         fr_n (fill_eof fr) = fr_n (fill fr) \<and>
         (if rest fr = [] then fr_n (fill fr) = 0 \<and> fr_err (fill_eof fr) = Some EOF
          else 0 < fr_n (fill fr))"
proof (cases "script (fr_r fr)")
  case Nil
  with assms show ?thesis
    by (simp add: fill_eof_def fill_def Read_def good_def rest_def avail_def)
next
  case (Cons r rs)
  obtain d c e where r: "r = (d, c, e)" by (cases r)
  from assms Cons r have wb: "c = int (length d)" "length d \<le> length (fr_buf fr)"
    by (auto simp: good_def)
  with assms Cons r show ?thesis
    by (cases e) (auto simp: fill_eof_def fill_def Read_def good_def rest_def avail_def Let_def)
qed

lemma ensureData_fill_eof:
  "ensureData fr =
     (if fr_err fr \<noteq> None \<and> \<not> (fr_err fr = Some EOF \<and> fr_pos fr < fr_n fr)
      then (fr_err fr, fr)
      else if fr_pos fr \<ge> fr_n fr then
         (if fr_n (fill fr) = 0 then (fr_err (fill_eof fr), fill_eof fr) else (None, fill_eof fr))
      else (None, fr))"
  by (auto simp: ensureData_def fill_eof_def Let_def)

lemma ensureData_good:
  assumes "good fr"
  shows "\<exists>fr1. good fr1 \<and> rest fr1 = rest fr \<and>
           ensureData fr = (if rest fr = [] then Some EOF else None, fr1) \<and>
           (rest fr \<noteq> [] \<longrightarrow> fr_pos fr1 < fr_n fr1)"
proof (cases "fr_err fr")
  case None
  show ?thesis
  proof (cases "fr_n fr \<le> fr_pos fr")
    case True
    from fill_good[OF assms None True] None True show ?thesis
      by (auto simp: ensureData_fill_eof split: if_splits)
  next
    case False
    with assms None have "rest fr \<noteq> []"
      using avail_Cons[of fr] by (auto simp: good_def rest_def)
    with False None assms show ?thesis by (auto simp: ensureData_def)
  qed
next
  case (Some x)
  with assms have x: "x = EOF" by (simp add: good_def)
  show ?thesis
  proof (cases "fr_n fr \<le> fr_pos fr")
    case True
    with Some x assms show ?thesis by (auto simp: ensureData_def rest_def avail_def)
  next
    case False
    with assms Some have "rest fr \<noteq> []"
      using avail_Cons[of fr] by (auto simp: good_def rest_def)
    with False Some x assms show ?thesis by (auto simp: ensureData_def)
  qed
qed

lemma good_index:
  "good fr \<Longrightarrow> fr_pos fr < fr_n fr \<Longrightarrow> rest fr = b # bs \<Longrightarrow>
   index (fr_buf fr) (fr_pos fr) = Return b \<and>
   avail (fr\<lparr>fr_pos := fr_pos fr + 1\<rparr>) @ (case fr_err fr of None \<Rightarrow> content (script (fr_r fr)) | Some x \<Rightarrow> []) = bs"
  using avail_Cons[of fr] by (auto simp: good_def rest_def index_def)

lemma PeekByte_good:
  assumes "good fr"
  shows "\<exists>fr1. good fr1 \<and> rest fr1 = rest fr \<and>
           PeekByte fr = Return (case rest fr of [] \<Rightarrow> (CHR 0x00, Some EOF, fr1) | b # bs \<Rightarrow> (b, None, fr1)) \<and>
           (rest fr \<noteq> [] \<longrightarrow> fr_pos fr1 < fr_n fr1)"
proof -
  from ensureData_good[OF assms] obtain fr1 where
    f: "good fr1" "rest fr1 = rest fr" "ensureData fr = (if rest fr = [] then Some EOF else None, fr1)"
       "rest fr \<noteq> [] \<longrightarrow> fr_pos fr1 < fr_n fr1" by blast
  show ?thesis
  proof (cases "rest fr")
    case Nil
    with f show ?thesis by (auto simp: PeekByte_def)
  next
    case (Cons b bs)
    with f good_index[of fr1 b bs] show ?thesis by (auto simp: PeekByte_def)
  qed
qed


lemma ReadByte_alt:
  "ensureData fr = (None, fr1) \<Longrightarrow> index (fr_buf fr1) (fr_pos fr1) = Return b \<Longrightarrow>
   fr2 = fr1\<lparr>fr_pos := fr_pos fr1 + 1\<rparr> \<Longrightarrow>
   ReadByte fr =
     (if fr_pos fr2 \<ge> fr_n fr2 then
        (if fr_err fr2 = None then
           (if fr_n (fill fr2) = 0 then Return (b, fr_err (fill_eof fr2), fill_eof fr2)
            else ReadByte_end b (fill_eof fr2))
         else if fr_n fr2 = 0 then Return (b, fr_err fr2, fr2) else ReadByte_end b fr2)
      else ReadByte_end b fr2)"
  by (auto simp: ReadByte_def fill_eof_def Let_def)

lemma good_advance:
  assumes "good fr" "fr_pos fr < fr_n fr" "rest fr = b # bs"
  shows "good (fr\<lparr>fr_pos := fr_pos fr + 1\<rparr>) \<and> rest (fr\<lparr>fr_pos := fr_pos fr + 1\<rparr>) = bs \<and>
         index (fr_buf fr) (fr_pos fr) = Return b"
  using good_index[OF assms] assms by (auto simp: good_def rest_def split: option.splits)

lemma good_exhausted:
  "good fr \<Longrightarrow> fr_n fr \<le> fr_pos fr \<Longrightarrow> fr_err fr \<noteq> None \<Longrightarrow> rest fr = []"
  by (auto simp: good_def rest_def avail_def)

lemma good_not_exhausted:
  "good fr \<Longrightarrow> fr_pos fr < fr_n fr \<Longrightarrow> rest fr \<noteq> []"
  using avail_Cons[of fr] by (auto simp: good_def rest_def)

lemma ReadByte_good:
  assumes "good fr"
  shows "\<exists>fr'. good fr' \<and> rest fr' = tl (rest fr) \<and>
           ReadByte fr = Return (case rest fr of [] \<Rightarrow> (CHR 0x00, Some EOF, fr')
                                 | b # bs \<Rightarrow> (b, if bs = [] then Some EOF else None, fr'))"
proof -
  from ensureData_good[OF assms] obtain fr1 where
    f: "good fr1" "rest fr1 = rest fr" "ensureData fr = (if rest fr = [] then Some EOF else None, fr1)"
       "rest fr \<noteq> [] \<longrightarrow> fr_pos fr1 < fr_n fr1" by blast
  show ?thesis
  proof (cases "rest fr")
    case Nil
    with f show ?thesis by (auto simp: ReadByte_def)
  next
    case (Cons b bs)
    define fr2 where "fr2 = fr1\<lparr>fr_pos := fr_pos fr1 + 1\<rparr>"
    from Cons f have lt: "fr_pos fr1 < fr_n fr1" and r1: "rest fr1 = b # bs" by auto
    from good_advance[OF f(1) lt r1] have g2: "good fr2" "rest fr2 = bs"
      and ix: "index (fr_buf fr1) (fr_pos fr1) = Return b" by (auto simp: fr2_def)
    from Cons f have ed: "ensureData fr = (None, fr1)" by simp
    note alt = ReadByte_alt[OF ed ix fr2_def]
    show ?thesis
    proof (cases "fr_pos fr2 \<ge> fr_n fr2")
      case False
      with good_not_exhausted[OF g2(1)] g2 have "bs \<noteq> []" by auto
      with False g2 Cons alt show ?thesis by (auto simp: ReadByte_end_def)
    next
      case True
      show ?thesis
      proof (cases "fr_err fr2")
        case None
        from fill_good[OF g2(1) None True] g2 None True Cons alt show ?thesis
          by (auto simp: ReadByte_end_def split: if_splits)
      next
        case (Some x)
        with good_exhausted[OF g2(1) True] g2 have bs: "bs = []" by auto
        from lt have "fr_n fr2 \<noteq> 0" using f(1) by (auto simp: fr2_def good_def)
        with Some True bs g2 Cons alt show ?thesis
          using g2(1) by (auto simp: ReadByte_end_def good_def)
      qed
    qed
  qed
qed

lemma ReadByte_discard_good:
  assumes "good fr"
  shows "\<exists>fr'. good fr' \<and> rest fr' = tl (rest fr) \<and> ReadByte_discard fr = Return fr'"
  using ReadByte_good[OF assms] by (cases "rest fr") (auto simp: ReadByte_discard_def)

lemma SkipSpaces_good:
  "good fr \<Longrightarrow>
   \<exists>fr'. good fr' \<and> rest fr' = dropWhile isSpace (rest fr) \<and> SkipSpaces fr = Return (None, fr')"
proof (induction "rest fr" arbitrary: fr)
  case Nil
  from PeekByte_good[OF Nil(2)] Nil(1)[symmetric] show ?case
    by (subst SkipSpaces.simps) auto
next
  case (Cons b bs)
  from PeekByte_good[OF Cons(3)] Cons(2)[symmetric] obtain fr1 where
    p: "good fr1" "rest fr1 = b # bs" "PeekByte fr = Return (b, None, fr1)" by auto
  show ?case
  proof (cases "isSpace b")
    case False
    with p Cons(2)[symmetric] show ?thesis by (subst SkipSpaces.simps) auto
  next
    case True
    from ReadByte_discard_good[OF p(1)] p(2) obtain fr2 where
      r: "good fr2" "rest fr2 = bs" "ReadByte_discard fr1 = Return fr2" by auto
    from Cons(1)[of fr2] r obtain fr' where
      "good fr'" "rest fr' = dropWhile isSpace bs" "SkipSpaces fr2 = Return (None, fr')" by auto
    with True p r Cons(2)[symmetric] show ?thesis by (subst SkipSpaces.simps) auto
  qed
qed

text \<open>The bytes the digit loops of the number tokenizers consume.\<close>

definition isDigit :: "byte \<Rightarrow> bool" where
  "isDigit b \<longleftrightarrow> \<not> notDigit b"

lemma NextInt_loop_good:
  "good fr \<Longrightarrow>
   \<exists>fr'. good fr' \<and> rest fr' = dropWhile isDigit (rest fr) \<and>
     NextInt_loop fr sign val k =
       NextInt_end sign (foldl (\<lambda>v b. v * 10 + digitVal b) val (takeWhile isDigit (rest fr)))
         (k + int (length (takeWhile isDigit (rest fr)))) fr'"
proof (induction "rest fr" arbitrary: fr val k)
  case Nil
  from PeekByte_good[OF Nil(2)] Nil(1)[symmetric] show ?case
    by (subst NextInt_loop.simps) auto
next
  case (Cons b bs)
  from PeekByte_good[OF Cons(3)] Cons(2)[symmetric] obtain fr1 where
    p: "good fr1" "rest fr1 = b # bs" "PeekByte fr = Return (b, None, fr1)" by auto
  show ?case
  proof (cases "notDigit b")
    case True
    with p Cons(2)[symmetric] show ?thesis by (subst NextInt_loop.simps) (auto simp: isDigit_def)
  next
    case False
    from ReadByte_discard_good[OF p(1)] p(2) obtain fr2 where
      r: "good fr2" "rest fr2 = bs" "ReadByte_discard fr1 = Return fr2" by auto
    from Cons(1)[of fr2 "val * 10 + digitVal b" "k + 1"] r obtain fr' where
      "good fr'" "rest fr' = dropWhile isDigit bs"
      "NextInt_loop fr2 sign (val * 10 + digitVal b) (k + 1) =
         NextInt_end sign (foldl (\<lambda>v b. v * 10 + digitVal b) (val * 10 + digitVal b) (takeWhile isDigit bs))
         (k + 1 + int (length (takeWhile isDigit bs))) fr'" by auto
    with False p r Cons(2)[symmetric] show ?thesis
      by (subst NextInt_loop.simps) (auto simp: isDigit_def add.assoc intro!: exI[of _ fr'])
  qed
qed


lemma NextLine_loop_unterminated:
  "good fr \<Longrightarrow> rest fr = l @ [c] \<Longrightarrow> CHR 0x0A \<notin> set l \<Longrightarrow>
   \<exists>fr'. good fr' \<and> rest fr' = [] \<and>
     NextLine_loop fr buf =
       (if length (buf @ l) = 0 then Return ([], Some EOF, fr') else NextLine_end (buf @ l) fr')"
proof (induction l arbitrary: fr buf)
  case Nil
  from ReadByte_good[OF Nil(1)] Nil(2) show ?case
    by (subst NextLine_loop.simps) auto
next
  case (Cons b bs)
  from ReadByte_good[OF Cons(2)] Cons(3) obtain fr1 where
    r: "good fr1" "rest fr1 = bs @ [c]" "ReadByte fr = Return (b, None, fr1)" by auto
  from Cons(1)[OF r(1) r(2), of "buf @ [b]"] Cons(4) obtain fr' where
    "good fr'" "rest fr' = []"
    "NextLine_loop fr1 (buf @ [b]) =
       (if length ((buf @ [b]) @ bs) = 0 then Return ([], Some EOF, fr') else NextLine_end ((buf @ [b]) @ bs) fr')"
    by auto
  with r Cons(4) show ?case
    by (subst NextLine_loop.simps) auto
qed

lemma NextLine_loop_terminated:
  "good fr \<Longrightarrow> rest fr = l @ CHR 0x0A # c # cs \<Longrightarrow> CHR 0x0A \<notin> set l \<Longrightarrow>
   \<exists>fr'. good fr' \<and> rest fr' = c # cs \<and>
     NextLine_loop fr buf = NextLine_end (buf @ l) fr'"
proof (induction l arbitrary: fr buf)
  case Nil
  from ReadByte_good[OF Nil(1)] Nil(2) show ?case
    by (subst NextLine_loop.simps) auto
next
  case (Cons b bs)
  from ReadByte_good[OF Cons(2)] Cons(3) obtain fr1 where
    r: "good fr1" "rest fr1 = bs @ CHR 0x0A # c # cs" "ReadByte fr = Return (b, None, fr1)" by auto
  from Cons(1)[OF r(1) r(2), of "buf @ [b]"] Cons(4) obtain fr' where
    "good fr'" "rest fr' = c # cs"
    "NextLine_loop fr1 (buf @ [b]) = NextLine_end ((buf @ [b]) @ bs) fr'"
    by auto
  with r Cons(4) show ?case
    by (subst NextLine_loop.simps) auto
qed

section \<open>Facts about single calls\<close>

lemma ensureData_err: "ensureData fr = (Some e, fr') \<Longrightarrow> fr_err fr' = Some e"
  by (auto simp: ensureData_def Let_def split: if_splits)

lemma ReadByte_err: "ReadByte fr = Return (b, Some e, fr') \<Longrightarrow> fr_err fr' = Some e"
  by (cases "ensureData fr")
     (auto simp: ReadByte_def Let_def ReadByte_end_def dest: ensureData_err
           split: option.splits outcome.splits if_splits)

lemma good_NewReader: "good (NewReader src) = wellBehaved defaultReaderBufSize (script src)"
  by (simp add: good_def NewReader_def)

lemma rest_NewReader: "rest (NewReader src) = content (script src)"
  by (simp add: rest_def NewReader_def avail_def)


lemma ensureData_terminal:
  "fr_err fr = Some e \<Longrightarrow> fr_n fr \<le> fr_pos fr \<or> e \<noteq> EOF \<Longrightarrow> ensureData fr = (Some e, fr)"
  by (auto simp: ensureData_def)

lemma PeekByte_terminal:
  "fr_err fr = Some e \<Longrightarrow> fr_n fr \<le> fr_pos fr \<or> e \<noteq> EOF \<Longrightarrow>
   PeekByte fr = Return (CHR 0x00, Some e, fr)"
  by (simp add: PeekByte_def ensureData_terminal)

lemma ReadByte_terminal:
  "fr_err fr = Some e \<Longrightarrow> fr_n fr \<le> fr_pos fr \<or> e \<noteq> EOF \<Longrightarrow>
   ReadByte fr = Return (CHR 0x00, Some e, fr)"
  by (simp add: ReadByte_def ensureData_terminal)

lemma SkipSpaces_terminal:
  "fr_err fr = Some e \<Longrightarrow> fr_n fr \<le> fr_pos fr \<or> e \<noteq> EOF \<Longrightarrow>
   SkipSpaces fr = Return (if errors_Is_EOF e then None else Some e, fr)"
  by (subst SkipSpaces.simps) (simp add: PeekByte_terminal)

lemma NextInt_terminal:
  "fr_err fr = Some e \<Longrightarrow> fr_n fr \<le> fr_pos fr \<or> e \<noteq> EOF \<Longrightarrow>
   NextInt fr = Return (0, Some e, fr)"
  by (simp add: NextInt_def SkipSpaces_terminal PeekByte_terminal)

lemma NextWord_terminal:
  "fr_err fr = Some e \<Longrightarrow> fr_n fr \<le> fr_pos fr \<or> e \<noteq> EOF \<Longrightarrow>
   NextWord fr = Return ([], Some (if errors_Is_EOF e then EOF else e), fr)"
  by (simp add: NextWord_def SkipSpaces_terminal NextWord_loop.simps[of fr] PeekByte_terminal)

lemma NextLine_terminal:
  "fr_err fr = Some e \<Longrightarrow> fr_n fr \<le> fr_pos fr \<or> e \<noteq> EOF \<Longrightarrow>
   NextLine fr = Return ([], Some (if errors_Is_EOF e then EOF else e), fr)"
  by (simp add: NextLine_def NextLine_loop.simps[of fr] ReadByte_terminal)


















lemma NextInt64_terminal:
  "fr_err fr = Some e \<Longrightarrow> fr_n fr \<le> fr_pos fr \<or> e \<noteq> EOF \<Longrightarrow>
   NextInt64 fr = Return (0, Some e, fr)"
  by (simp add: NextInt64_def SkipSpaces_terminal PeekByte_terminal)

lemma NextUint64_terminal:
  "fr_err fr = Some e \<Longrightarrow> fr_n fr \<le> fr_pos fr \<or> e \<noteq> EOF \<Longrightarrow>
   NextUint64 fr = Return (0, Some e, fr)"
  by (simp add: NextUint64_def SkipSpaces_terminal PeekByte_terminal)

lemma NextFloat64_terminal:
  "fr_err fr = Some e \<Longrightarrow> fr_n fr \<le> fr_pos fr \<or> e \<noteq> EOF \<Longrightarrow>
   NextFloat64 ParseFloat fr = Return (0, Some (if errors_Is_EOF e then EOF else e), fr)"
  by (simp add: NextFloat64_def NextWord_terminal)






section \<open>The source of the tests: \<open>strings.NewReader\<close>\<close>

text \<open>
  \<open>strings.Reader.Read(p)\<close> copies as many of its remaining bytes as fit in \<open>p\<close>, and answers
  \<open>(0, io.EOF)\<close> once none remain. Every buffer the read engine passes has the length
  \<open>defaultReaderBufSize\<close>.
\<close>

function chunks :: "nat \<Rightarrow> byte list \<Rightarrow> response list" where
  "chunks k s =
     (if s = [] \<or> k = 0 then []
      else (take k s, int (length (take k s)), None) # chunks k (drop k s))"
  by pat_completeness auto
termination
  by (relation "measure (\<lambda>(k, s). length s)") auto

declare chunks.simps [simp del]

definition strings_NewReader :: "string \<Rightarrow> source" where
  "strings_NewReader s = \<lparr>script = chunks defaultReaderBufSize s, calls = 0\<rparr>"

text \<open>\<open>newTestReader\<close> of reader_test.go.\<close>

definition newTestReader :: "string \<Rightarrow> FastReader" where
  "newTestReader s = NewReader (strings_NewReader s)"

lemma chunks_Nil: "chunks k [] = []"
  by (simp add: chunks.simps)


lemma wellBehaved_chunks: "wellBehaved k (chunks k s)"
proof (induction k s rule: chunks.induct)
  case (1 k s)
  then show ?case by (subst chunks.simps) auto
qed

lemma content_chunks: "0 < k \<Longrightarrow> content (chunks k s) = s"
proof (induction k s rule: chunks.induct)
  case (1 k s)
  then show ?case by (subst chunks.simps) auto
qed

lemma good_newTestReader: "good (newTestReader s)"
  by (simp add: newTestReader_def strings_NewReader_def good_NewReader wellBehaved_chunks)

lemma rest_newTestReader: "rest (newTestReader s) = s"
  by (simp add: newTestReader_def strings_NewReader_def rest_NewReader content_chunks
      defaultReaderBufSize_def)

text \<open>The reader of the tests over the empty input, after one call has met the end of input.\<close>

definition atEOF :: FastReader where
  "atEOF = \<lparr>fr_r = \<lparr>script = [], calls = 1\<rparr>, fr_buf = replicate defaultReaderBufSize (CHR 0x00),
            fr_pos = 0, fr_n = 0, fr_err = Some EOF\<rparr>"


section \<open>The tokenizers over a well-behaved source\<close>

text \<open>What the digit loop of \<open>NextInt\<close> accumulates over a run of digits.\<close>

definition accumulate :: "go_int \<Rightarrow> byte list \<Rightarrow> go_int" where
  "accumulate val ds = foldl (\<lambda>v b. v * 10 + digitVal b) val ds"


lemma NextInt_good_eof:
  assumes "good fr" and "dropWhile isSpace (rest fr) = []"
  shows "\<exists>fr'. good fr' \<and> rest fr' = [] \<and> NextInt fr = Return (0, Some EOF, fr')"
proof -
  from SkipSpaces_good[OF assms(1)] assms(2) obtain fr1 where
    s: "good fr1" "rest fr1 = []" "SkipSpaces fr = Return (None, fr1)" by auto
  from PeekByte_good[OF s(1)] s(2) obtain fr2 where
    p: "good fr2" "rest fr2 = []" "PeekByte fr1 = Return (CHR 0x00, Some EOF, fr2)"
    by auto
  with s show ?thesis by (auto simp: NextInt_def)
qed

lemma NextInt_good_token:
  assumes "good fr" and "dropWhile isSpace (rest fr) = c # cs"
    and "r1 = (if c = CHR ''-'' \<or> c = CHR ''+'' then cs else c # cs)"
  shows "\<exists>fr'. good fr' \<and> rest fr' = dropWhile isDigit r1 \<and>
           NextInt fr =
             NextInt_end (if c = CHR ''-'' then - 1 else 1) (accumulate 0 (takeWhile isDigit r1))
               (int (length (takeWhile isDigit r1))) fr'"
proof -
  from SkipSpaces_good[OF assms(1)] assms(2) obtain fr1 where
    s: "good fr1" "rest fr1 = c # cs" "SkipSpaces fr = Return (None, fr1)" by auto
  from PeekByte_good[OF s(1)] s(2) obtain fr2 where
    p: "good fr2" "rest fr2 = c # cs" "PeekByte fr1 = Return (c, None, fr2)"
    by auto
  from ReadByte_discard_good[OF p(1)] p(2) obtain fr3 where
    r: "good fr3" "rest fr3 = cs" "ReadByte_discard fr2 = Return fr3" by auto
  show ?thesis
  proof (cases "c = CHR ''-'' \<or> c = CHR ''+''")
    case True
    from NextInt_loop_good[OF r(1), of "if c = CHR ''-'' then - 1 else 1" 0 0] True s p r assms(3)
    show ?thesis by (auto simp: NextInt_def accumulate_def)
  next
    case False
    from NextInt_loop_good[OF p(1), of 1 0 0] False s p assms(3)
    show ?thesis by (auto simp: NextInt_def accumulate_def)
  qed
qed



lemma isDigit_not_isSpace: "isDigit d \<Longrightarrow> \<not> isSpace d"
  by (auto simp: isDigit_def notDigit_def isSpace_def)

lemma isDigit_not_sign: "isDigit d \<Longrightarrow> d \<noteq> CHR ''-'' \<and> d \<noteq> CHR ''+''"
  by (auto simp: isDigit_def notDigit_def)


section \<open>The errors the read engine has reported\<close>

text \<open>
  The state in which the read engine hands out nothing more: the sticky error is set, and
  either the buffered bytes are used up or the error is not \<open>io.EOF\<close> (what is buffered is
  then never delivered).
\<close>

definition terminal :: "FastReader \<Rightarrow> error \<Rightarrow> bool" where
  "terminal fr e \<longleftrightarrow> fr_err fr = Some e \<and> (fr_n fr \<le> fr_pos fr \<or> e \<noteq> EOF)"

lemma fill_pos0: "fr_err fr = None \<Longrightarrow> fr_pos (fill fr) = 0 \<and> 0 \<le> fr_n (fill fr)"
  using fill_n_nonneg[of fr] by simp

lemma ensureData_reports: "ensureData fr = (Some e, fr') \<Longrightarrow> terminal fr' e"
  using fill_pos0[of fr]
  by (auto simp: ensureData_def Let_def terminal_def split: if_splits)

lemma PeekByte_reports: "PeekByte fr = Return (b, Some e, fr') \<Longrightarrow> terminal fr' e"
  by (cases "ensureData fr")
     (auto simp: PeekByte_def dest: ensureData_reports split: option.splits outcome.splits)

lemma ReadByte_reports: "ReadByte fr = Return (b, Some e, fr') \<Longrightarrow> terminal fr' e"
proof (cases "ensureData fr")
  case (Pair r fr1)
  assume rb: "ReadByte fr = Return (b, Some e, fr')"
  show ?thesis
  proof (cases r)
    case (Some x)
    with Pair rb ensureData_reports[of fr x fr1] show ?thesis by (auto simp: ReadByte_def)
  next
    case None
    define fr2 where "fr2 = fr1\<lparr>fr_pos := fr_pos fr1 + 1\<rparr>"
    from fill_pos0[of fr2] have f: "fr_err fr2 = None \<longrightarrow> fr_pos (fill fr2) = 0" by simp
    from Pair None rb f show ?thesis
      by (auto simp: ReadByte_def Let_def ReadByte_end_def terminal_def fr2_def
          split: outcome.splits if_splits)
  qed
qed

lemma SkipSpaces_reports: "SkipSpaces fr = Return (Some e, fr') \<Longrightarrow> terminal fr' e"
proof (induction fr rule: SkipSpaces.induct)
  case (1 fr)
  show ?case
  proof (cases "PeekByte fr")
    case Panic
    with 1(2) show ?thesis by (subst (asm) SkipSpaces.simps) simp
  next
    case (Return x)
    obtain b r fr1 where x: "x = (b, r, fr1)" by (cases x)
    show ?thesis
    proof (cases r)
      case (Some e0)
      with 1(2) Return x PeekByte_reports[of fr b e0 fr1] show ?thesis
        by (subst (asm) SkipSpaces.simps) (auto split: if_splits)
    next
      case None
      show ?thesis
      proof (cases "isSpace b")
        case False
        with 1(2) Return x None show ?thesis by (subst (asm) SkipSpaces.simps) simp
      next
        case True
        show ?thesis
        proof (cases "ReadByte_discard fr1")
          case Panic
          with 1(2) Return x None True show ?thesis by (subst (asm) SkipSpaces.simps) simp
        next
          case (Return fr2)
          with 1(2) \<open>PeekByte fr = Return x\<close> x None True
          have "SkipSpaces fr2 = Return (Some e, fr')" by (subst (asm) SkipSpaces.simps) simp
          from 1(1)[OF \<open>PeekByte fr = Return x\<close> x[symmetric] refl _ True Return this] None
          show ?thesis by simp
        qed
      qed
    qed
  qed
qed


lemma NextInt_loop_reports:
  "NextInt_loop fr sign val k = Return (v, Some e, fr') \<Longrightarrow>
   e = errors_New ''fastio: NextInt: no digits found'' \<or> terminal fr' e"
proof (induction fr sign val k rule: NextInt_loop.induct)
  case (1 fr sign val k)
  show ?case
  proof (cases "PeekByte fr")
    case Panic
    with 1(2) show ?thesis by (subst (asm) NextInt_loop.simps) simp
  next
    case (Return x)
    obtain b r fr1 where x: "x = (b, r, fr1)" by (cases x)
    show ?thesis
    proof (cases r)
      case (Some e0)
      with 1(2) Return x PeekByte_reports[of fr b e0 fr1] show ?thesis
        by (subst (asm) NextInt_loop.simps) (auto simp: NextInt_end_def split: if_splits)
    next
      case None
      show ?thesis
      proof (cases "notDigit b")
        case True
        with 1(2) Return x None show ?thesis
          by (subst (asm) NextInt_loop.simps) (auto simp: NextInt_end_def split: if_splits)
      next
        case False
        show ?thesis
        proof (cases "ReadByte_discard fr1")
          case Panic
          with 1(2) Return x None False show ?thesis by (subst (asm) NextInt_loop.simps) simp
        next
          case (Return fr2)
          with 1(2) \<open>PeekByte fr = Return x\<close> x None False
          have "NextInt_loop fr2 sign (val * 10 + digitVal b) (k + 1) = Return (v, Some e, fr')"
            by (subst (asm) NextInt_loop.simps) simp
          from 1(1)[OF \<open>PeekByte fr = Return x\<close> x[symmetric] refl _ False Return this] None
          show ?thesis by simp
        qed
      qed
    qed
  qed
qed

lemma NextInt64_loop_reports:
  "NextInt64_loop fr sign val k = Return (v, Some e, fr') \<Longrightarrow>
   e = errors_New ''fastio: NextInt64: no digits found'' \<or> terminal fr' e"
proof (induction fr sign val k rule: NextInt64_loop.induct)
  case (1 fr sign val k)
  show ?case
  proof (cases "PeekByte fr")
    case Panic
    with 1(2) show ?thesis by (subst (asm) NextInt64_loop.simps) simp
  next
    case (Return x)
    obtain b r fr1 where x: "x = (b, r, fr1)" by (cases x)
    show ?thesis
    proof (cases r)
      case (Some e0)
      with 1(2) Return x PeekByte_reports[of fr b e0 fr1] show ?thesis
        by (subst (asm) NextInt64_loop.simps) (auto simp: NextInt64_end_def split: if_splits)
    next
      case None
      show ?thesis
      proof (cases "notDigit b")
        case True
        with 1(2) Return x None show ?thesis
          by (subst (asm) NextInt64_loop.simps) (auto simp: NextInt64_end_def split: if_splits)
      next
        case False
        show ?thesis
        proof (cases "ReadByte_discard fr1")
          case Panic
          with 1(2) Return x None False show ?thesis by (subst (asm) NextInt64_loop.simps) simp
        next
          case (Return fr2)
          with 1(2) \<open>PeekByte fr = Return x\<close> x None False
          have "NextInt64_loop fr2 sign (val * 10 + digitVal b) (k + 1) = Return (v, Some e, fr')"
            by (subst (asm) NextInt64_loop.simps) simp
          from 1(1)[OF \<open>PeekByte fr = Return x\<close> x[symmetric] refl _ False Return this] None
          show ?thesis by simp
        qed
      qed
    qed
  qed
qed

lemma NextUint64_loop_reports:
  "NextUint64_loop fr val k = Return (v, Some e, fr') \<Longrightarrow>
   e = errors_New ''fastio: NextUint64: no digits found'' \<or> terminal fr' e"
proof (induction fr val k rule: NextUint64_loop.induct)
  case (1 fr val k)
  show ?case
  proof (cases "PeekByte fr")
    case Panic
    with 1(2) show ?thesis by (subst (asm) NextUint64_loop.simps) simp
  next
    case (Return x)
    obtain b r fr1 where x: "x = (b, r, fr1)" by (cases x)
    show ?thesis
    proof (cases r)
      case (Some e0)
      with 1(2) Return x PeekByte_reports[of fr b e0 fr1] show ?thesis
        by (subst (asm) NextUint64_loop.simps) (auto simp: NextUint64_end_def split: if_splits)
    next
      case None
      show ?thesis
      proof (cases "notDigit b")
        case True
        with 1(2) Return x None show ?thesis
          by (subst (asm) NextUint64_loop.simps) (auto simp: NextUint64_end_def split: if_splits)
      next
        case False
        show ?thesis
        proof (cases "ReadByte_discard fr1")
          case Panic
          with 1(2) Return x None False show ?thesis by (subst (asm) NextUint64_loop.simps) simp
        next
          case (Return fr2)
          with 1(2) \<open>PeekByte fr = Return x\<close> x None False
          have "NextUint64_loop fr2 (val * 10 + digitVal b) (k + 1) = Return (v, Some e, fr')"
            by (subst (asm) NextUint64_loop.simps) simp
          from 1(1)[OF \<open>PeekByte fr = Return x\<close> x[symmetric] refl _ False Return this] None
          show ?thesis by simp
        qed
      qed
    qed
  qed
qed

lemma NextInt_reports:
  assumes "NextInt fr = Return (v, Some e, fr')"
  shows "e = errors_New ''fastio: NextInt: no digits found'' \<or> terminal fr' e"
proof (cases "SkipSpaces fr")
  case Panic
  with assms show ?thesis by (simp add: NextInt_def)
next
  case (Return x)
  obtain r fr1 where x: "x = (r, fr1)" by (cases x)
  show ?thesis
  proof (cases r)
    case (Some e0)
    with assms Return x SkipSpaces_reports[of fr e0 fr1] show ?thesis by (auto simp: NextInt_def)
  next
    case None
    show ?thesis
    proof (cases "PeekByte fr1")
      case Panic
      with assms Return x None show ?thesis by (simp add: NextInt_def)
    next
      case p: (Return y)
      obtain b r2 fr2 where y: "y = (b, r2, fr2)" by (cases y)
      show ?thesis
      proof (cases r2)
        case (Some e0)
        with assms Return x None p y PeekByte_reports[of fr1 b e0 fr2] show ?thesis
          by (auto simp: NextInt_def)
      next
        case n2: None
        show ?thesis
        proof (cases "ReadByte_discard fr2")
          case Panic
          with assms Return x None p y n2 NextInt_loop_reports[of fr2 1 0 0 v e fr']
          show ?thesis by (auto simp: NextInt_def split: if_splits)
        next
          case rd: (Return fr3)
          with assms Return x None p y n2 NextInt_loop_reports[of fr3 "- 1" 0 0 v e fr'] NextInt_loop_reports[of fr3 1 0 0 v e fr']
      NextInt_loop_reports[of fr2 1 0 0 v e fr']
          show ?thesis by (auto simp: NextInt_def split: if_splits)
        qed
      qed
    qed
  qed
qed

lemma NextInt64_reports:
  assumes "NextInt64 fr = Return (v, Some e, fr')"
  shows "e = errors_New ''fastio: NextInt64: no digits found'' \<or> terminal fr' e"
proof (cases "SkipSpaces fr")
  case Panic
  with assms show ?thesis by (simp add: NextInt64_def)
next
  case (Return x)
  obtain r fr1 where x: "x = (r, fr1)" by (cases x)
  show ?thesis
  proof (cases r)
    case (Some e0)
    with assms Return x SkipSpaces_reports[of fr e0 fr1] show ?thesis by (auto simp: NextInt64_def)
  next
    case None
    show ?thesis
    proof (cases "PeekByte fr1")
      case Panic
      with assms Return x None show ?thesis by (simp add: NextInt64_def)
    next
      case p: (Return y)
      obtain b r2 fr2 where y: "y = (b, r2, fr2)" by (cases y)
      show ?thesis
      proof (cases r2)
        case (Some e0)
        with assms Return x None p y PeekByte_reports[of fr1 b e0 fr2] show ?thesis
          by (auto simp: NextInt64_def)
      next
        case n2: None
        show ?thesis
        proof (cases "ReadByte_discard fr2")
          case Panic
          with assms Return x None p y n2 NextInt64_loop_reports[of fr2 1 0 0 v e fr']
          show ?thesis by (auto simp: NextInt64_def split: if_splits)
        next
          case rd: (Return fr3)
          with assms Return x None p y n2 NextInt64_loop_reports[of fr3 "- 1" 0 0 v e fr'] NextInt64_loop_reports[of fr3 1 0 0 v e fr']
      NextInt64_loop_reports[of fr2 1 0 0 v e fr']
          show ?thesis by (auto simp: NextInt64_def split: if_splits)
        qed
      qed
    qed
  qed
qed

lemma NextUint64_reports:
  assumes "NextUint64 fr = Return (v, Some e, fr')"
  shows "e = errors_New ''fastio: NextUint64: no digits found'' \<or> terminal fr' e"
proof (cases "SkipSpaces fr")
  case Panic
  with assms show ?thesis by (simp add: NextUint64_def)
next
  case (Return x)
  obtain r fr1 where x: "x = (r, fr1)" by (cases x)
  show ?thesis
  proof (cases r)
    case (Some e0)
    with assms Return x SkipSpaces_reports[of fr e0 fr1] show ?thesis by (auto simp: NextUint64_def)
  next
    case None
    show ?thesis
    proof (cases "PeekByte fr1")
      case Panic
      with assms Return x None show ?thesis by (simp add: NextUint64_def)
    next
      case p: (Return y)
      obtain b r2 fr2 where y: "y = (b, r2, fr2)" by (cases y)
      show ?thesis
      proof (cases r2)
        case (Some e0)
        with assms Return x None p y PeekByte_reports[of fr1 b e0 fr2] show ?thesis
          by (auto simp: NextUint64_def)
      next
        case n2: None
        show ?thesis
        proof (cases "ReadByte_discard fr2")
          case Panic
          with assms Return x None p y n2 NextUint64_loop_reports[of fr2 0 0 v e fr']
          show ?thesis by (auto simp: NextUint64_def split: if_splits)
        next
          case rd: (Return fr3)
          with assms Return x None p y n2 NextUint64_loop_reports[of fr3 0 0 v e fr'] NextUint64_loop_reports[of fr2 0 0 v e fr']
          show ?thesis by (auto simp: NextUint64_def split: if_splits)
        qed
      qed
    qed
  qed
qed

text \<open>The error \<open>NextWord\<close>, \<open>NextLine\<close> and \<open>NextFloat64\<close> return for a sticky error.\<close>

definition asEOF :: "error \<Rightarrow> error" where
  "asEOF e = (if errors_Is_EOF e then EOF else e)"

lemma NextLine_loop_reports:
  "NextLine_loop fr buf = Return (l, Some e, fr') \<Longrightarrow> \<exists>e0. terminal fr' e0 \<and> e = asEOF e0"
proof (induction fr buf rule: NextLine_loop.induct)
  case (1 fr buf)
  show ?case
  proof (cases "ReadByte fr")
    case Panic
    with 1(2) show ?thesis by (subst (asm) NextLine_loop.simps) simp
  next
    case (Return x)
    obtain b r fr1 where x: "x = (b, r, fr1)" by (cases x)
    show ?thesis
    proof (cases r)
      case (Some e0)
      with 1(2) Return x ReadByte_reports[of fr b e0 fr1] show ?thesis
        by (subst (asm) NextLine_loop.simps)
           (auto simp: NextLine_end_def asEOF_def split: if_splits)
    next
      case None
      show ?thesis
      proof (cases "b = CHR 0x0A")
        case True
        with 1(2) Return x None show ?thesis
          by (subst (asm) NextLine_loop.simps) (auto simp: NextLine_end_def split: if_splits)
      next
        case False
        with 1(2) Return x None
        have "NextLine_loop fr1 (buf @ [b]) = Return (l, Some e, fr')"
          by (subst (asm) NextLine_loop.simps) simp
        from 1(1)[OF Return x[symmetric] refl _ False this] None show ?thesis by simp
      qed
    qed
  qed
qed

lemma NextLine_reports:
  "NextLine fr = Return (l, Some e, fr') \<Longrightarrow> \<exists>e0. terminal fr' e0 \<and> e = asEOF e0"
  by (simp add: NextLine_def NextLine_loop_reports)


lemma ensureData_again:
  assumes "ensureData fr = (None, fr1)"
  shows "ensureData fr1 = (None, fr1) \<or> (\<exists>e. ensureData fr1 = (Some e, fr1))"
proof -
  have p: "fr_pos fr1 < fr_n fr1"
    using assms fill_pos0[of fr] by (auto simp: ensureData_def Let_def split: if_splits)
  then show ?thesis by (cases "fr_err fr1") (auto simp: ensureData_def)
qed

lemma ensureData_snd: "ensureData fr = (r, fr1) \<Longrightarrow> ensureData fr1 = (r', fr2) \<Longrightarrow> fr2 = fr1"
  using ensureData_again[of fr fr1] ensureData_reports[of fr _ fr1]
  by (cases r) (auto simp: terminal_def ensureData_def split: if_splits)

lemma PeekByte_again:
  assumes "PeekByte fr = Return (b, None, fr1)"
  shows "PeekByte fr1 = Return (b, None, fr1) \<or> (\<exists>e. PeekByte fr1 = Return (CHR 0x00, Some e, fr1))"
proof -
  from assms have ed: "ensureData fr = (None, fr1)" and ix: "index (fr_buf fr1) (fr_pos fr1) = Return b"
    by (cases "ensureData fr"; auto simp: PeekByte_def split: option.splits outcome.splits)+
  from ensureData_again[OF ed] ix show ?thesis by (auto simp: PeekByte_def)
qed

lemma SkipSpaces_None_peek:
  "SkipSpaces fr = Return (None, fr1) \<Longrightarrow> PeekByte fr1 = Return (b, None, fr2) \<Longrightarrow> \<not> isSpace b"
proof (induction fr rule: SkipSpaces.induct)
  case (1 fr)
  show ?case
  proof (cases "PeekByte fr")
    case Panic
    with 1(2) show ?thesis by (subst (asm) SkipSpaces.simps) simp
  next
    case (Return x)
    obtain c r fr0 where x: "x = (c, r, fr0)" by (cases x)
    show ?thesis
    proof (cases r)
      case (Some e0)
      with 1(2) Return x have "fr1 = fr0"
        by (subst (asm) SkipSpaces.simps) (auto split: if_splits)
      with Return x Some PeekByte_reports[of fr c e0 fr0] 1(3) show ?thesis
        by (auto simp: terminal_def PeekByte_terminal)
    next
      case None
      show ?thesis
      proof (cases "isSpace c")
        case False
        with 1(2) Return x None have "fr1 = fr0" by (subst (asm) SkipSpaces.simps) simp
        with Return x None PeekByte_again[of fr c fr0] 1(3) False show ?thesis by auto
      next
        case True
        show ?thesis
        proof (cases "ReadByte_discard fr0")
          case Panic
          with 1(2) Return x None True show ?thesis by (subst (asm) SkipSpaces.simps) simp
        next
          case (Return fr3)
          with 1(2) \<open>PeekByte fr = Return x\<close> x None True
          have "SkipSpaces fr3 = Return (None, fr1)" by (subst (asm) SkipSpaces.simps) simp
          from 1(1)[OF \<open>PeekByte fr = Return x\<close> x[symmetric] refl _ True Return this 1(3)] None
          show ?thesis by simp
        qed
      qed
    qed
  qed
qed

lemma NextWord_loop_reports:
  "NextWord_loop fr buf = Return (w, Some e, fr') \<Longrightarrow>
   (case PeekByte fr of Return (b, None, fr1) \<Rightarrow> \<not> isSpace b | _ \<Rightarrow> True) \<or> buf \<noteq> [] \<Longrightarrow>
   \<exists>e0. terminal fr' e0 \<and> e = asEOF e0"
proof (induction fr buf rule: NextWord_loop.induct)
  case (1 fr buf)
  show ?case
  proof (cases "PeekByte fr")
    case Panic
    with 1(2) show ?thesis by (subst (asm) NextWord_loop.simps) simp
  next
    case (Return x)
    obtain b r fr1 where x: "x = (b, r, fr1)" by (cases x)
    show ?thesis
    proof (cases r)
      case (Some e0)
      with 1(2) Return x PeekByte_reports[of fr b e0 fr1] show ?thesis
        by (subst (asm) NextWord_loop.simps) (auto simp: asEOF_def split: if_splits)
    next
      case None
      show ?thesis
      proof (cases "isSpace b")
        case True
        with 1(2,3) Return x None show ?thesis
          by (subst (asm) NextWord_loop.simps) (auto simp: NextWord_end_def split: if_splits)
      next
        case False
        show ?thesis
        proof (cases "ReadByte_discard fr1")
          case Panic
          with 1(2) Return x None False show ?thesis by (subst (asm) NextWord_loop.simps) simp
        next
          case (Return fr2)
          with 1(2) \<open>PeekByte fr = Return x\<close> x None False
          have "NextWord_loop fr2 (buf @ [b]) = Return (w, Some e, fr')"
            by (subst (asm) NextWord_loop.simps) simp
          from 1(1)[OF \<open>PeekByte fr = Return x\<close> x[symmetric] refl _ False Return this] None
          show ?thesis by simp
        qed
      qed
    qed
  qed
qed

lemma NextWord_reports:
  assumes "NextWord fr = Return (w, Some e, fr')"
  shows "\<exists>e0. terminal fr' e0 \<and> e = asEOF e0"
proof (cases "SkipSpaces fr")
  case Panic
  with assms show ?thesis by (simp add: NextWord_def)
next
  case (Return x)
  obtain r fr1 where x: "x = (r, fr1)" by (cases x)
  show ?thesis
  proof (cases r)
    case (Some e0)
    with assms Return x SkipSpaces_reports[of fr e0 fr1] show ?thesis
      by (auto simp: NextWord_def asEOF_def split: if_splits)
  next
    case None
    with assms Return x have l: "NextWord_loop fr1 [] = Return (w, Some e, fr')"
      by (simp add: NextWord_def)
    from Return x None have s: "SkipSpaces fr = Return (None, fr1)" by simp
    have "case PeekByte fr1 of Return (b, None, fr2) \<Rightarrow> \<not> isSpace b | _ \<Rightarrow> True"
      using SkipSpaces_None_peek[OF s] by (auto split: outcome.splits option.splits)
    with NextWord_loop_reports[OF l] show ?thesis by blast
  qed
qed

lemma NextFloat64_reports:
  assumes "NextWord fr = Return (w, Some e1, fr1)" and "NextFloat64 ParseFloat fr = Return (v, Some e, fr')"
  shows "\<exists>e0. terminal fr' e0 \<and> e = asEOF e0"
  using assms NextWord_reports[OF assms(1)] by (auto simp: NextFloat64_def)


text \<open>The error a call returned, with the reader it left, if it returned one.\<close>

definition errOf :: "('a \<times> error option \<times> FastReader) outcome \<Rightarrow> (error \<times> FastReader) option" where
  "errOf x = (case x of Panic \<Rightarrow> None | Return (a, None, fr) \<Rightarrow> None | Return (a, Some e, fr) \<Rightarrow> Some (e, fr))"

text \<open>
  Some operation of the read engine, called on \<open>fr\<close>, has reported the end-of-input or I/O
  error \<open>e\<close> to its caller and left the reader \<open>fr'\<close>. The no-digits errors of the number
  tokenizers and the errors of \<open>strconv.ParseFloat\<close> are errors of the value, not of the input:
  an error of \<open>NextInt\<close>, \<open>NextInt64\<close> or \<open>NextUint64\<close> counts unless it is the no-digits error
  (which \<open>errors.New\<close> makes anew at each return, so that no error of a source is that value),
  and an error of \<open>NextFloat64\<close> counts when its \<open>NextWord\<close> has failed.
\<close>

definition reported :: "(string \<Rightarrow> error + 'f::zero) \<Rightarrow> FastReader \<Rightarrow> error \<Rightarrow> FastReader \<Rightarrow> bool" where
  "reported ParseFloat fr e fr' \<longleftrightarrow>
     errOf (ReadByte fr) = Some (e, fr') \<or>
     errOf (PeekByte fr) = Some (e, fr') \<or>
     SkipSpaces fr = Return (Some e, fr') \<or>
     (errOf (NextInt fr) = Some (e, fr') \<and> e \<noteq> errors_New ''fastio: NextInt: no digits found'') \<or>
     (errOf (NextInt64 fr) = Some (e, fr') \<and> e \<noteq> errors_New ''fastio: NextInt64: no digits found'') \<or>
     (errOf (NextUint64 fr) = Some (e, fr') \<and> e \<noteq> errors_New ''fastio: NextUint64: no digits found'') \<or>
     errOf (NextWord fr) = Some (e, fr') \<or>
     errOf (NextLine fr) = Some (e, fr') \<or>
     (errOf (NextWord fr) \<noteq> None \<and> errOf (NextFloat64 ParseFloat fr) = Some (e, fr'))"

lemma errOf_Some: "errOf x = Some (e, fr') \<Longrightarrow> \<exists>a. x = Return (a, Some e, fr')"
  by (auto simp: errOf_def split: outcome.splits option.splits)

lemma errOf_not_None: "errOf x \<noteq> None \<Longrightarrow> \<exists>a e fr'. x = Return (a, Some e, fr')"
  by (auto simp: errOf_def split: outcome.splits option.splits)

lemma reported_terminal:
  assumes "reported ParseFloat fr e fr'"
  shows "\<exists>e0. terminal fr' e0 \<and> (e = e0 \<or> e = asEOF e0)"
proof -
  consider
      "errOf (ReadByte fr) = Some (e, fr')" | "errOf (PeekByte fr) = Some (e, fr')"
    | "SkipSpaces fr = Return (Some e, fr')"
    | "errOf (NextInt fr) = Some (e, fr')" "e \<noteq> errors_New ''fastio: NextInt: no digits found''"
    | "errOf (NextInt64 fr) = Some (e, fr')" "e \<noteq> errors_New ''fastio: NextInt64: no digits found''"
    | "errOf (NextUint64 fr) = Some (e, fr')" "e \<noteq> errors_New ''fastio: NextUint64: no digits found''"
    | "errOf (NextWord fr) = Some (e, fr')" | "errOf (NextLine fr) = Some (e, fr')"
    | "errOf (NextWord fr) \<noteq> None" "errOf (NextFloat64 ParseFloat fr) = Some (e, fr')"
    using assms unfolding reported_def by blast
  then show ?thesis
  proof cases
    case 1 then show ?thesis using ReadByte_reports by (blast dest: errOf_Some)
  next
    case 2 then show ?thesis using PeekByte_reports by (blast dest: errOf_Some)
  next
    case 3 then show ?thesis using SkipSpaces_reports by blast
  next
    case 4 then show ?thesis using NextInt_reports by (blast dest: errOf_Some)
  next
    case 5 then show ?thesis using NextInt64_reports by (blast dest: errOf_Some)
  next
    case 6 then show ?thesis using NextUint64_reports by (blast dest: errOf_Some)
  next
    case 7 then show ?thesis using NextWord_reports by (blast dest: errOf_Some)
  next
    case 8 then show ?thesis using NextLine_reports by (blast dest: errOf_Some)
  next
    case 9
    from errOf_not_None[OF 9(1)] obtain w e1 fr1 where "NextWord fr = Return (w, Some e1, fr1)" by blast
    moreover from errOf_Some[OF 9(2)] obtain v where "NextFloat64 ParseFloat fr = Return (v, Some e, fr')" by blast
    ultimately show ?thesis using NextFloat64_reports by blast
  qed
qed

lemma terminal_calls:
  assumes "terminal fr e"
  shows "ReadByte fr = Return (CHR 0x00, Some e, fr) \<and>
         PeekByte fr = Return (CHR 0x00, Some e, fr) \<and>
         NextInt fr = Return (0, Some e, fr) \<and>
         NextInt64 fr = Return (0, Some e, fr) \<and>
         NextUint64 fr = Return (0, Some e, fr) \<and>
         NextWord fr = Return ([], Some (asEOF e), fr) \<and>
         NextLine fr = Return ([], Some (asEOF e), fr) \<and>
         NextFloat64 ParseFloat fr = Return (0, Some (asEOF e), fr) \<and>
         SkipSpaces fr = Return (if errors_Is_EOF e then None else Some e, fr)"
  using assms unfolding terminal_def asEOF_def
  by (simp add: ReadByte_terminal PeekByte_terminal NextInt_terminal NextInt64_terminal
      NextUint64_terminal NextWord_terminal NextLine_terminal NextFloat64_terminal
      SkipSpaces_terminal)

section \<open>The bytes below \<open>n\<close>\<close>



























subsection \<open>A source that reports too many bytes\<close>






section \<open>The byte sink (\<open>io.Writer\<close>)\<close>

text \<open>
  One call of \<open>Write(p)\<close> answers with the count of bytes it accepted and an optional failure.
  A sink is the list of the byte sequences it has been called with, in order, and the rule
  by which it answers a call, given the calls before it.
\<close>

record sink =
  respond :: "byte list list \<Rightarrow> byte list \<Rightarrow> int \<times> error option"
  written :: "byte list list"

definition sink_Write :: "sink \<Rightarrow> byte list \<Rightarrow> (int \<times> error option) \<times> sink" where
  "sink_Write w p = (respond w (written w) p, w\<lparr>written := written w @ [p]\<rparr>)"

text \<open>
  \<open>bytes.Buffer\<close>, the sink of the tests: it accepts every byte, and holds the concatenation
  of what it was called with.
\<close>

definition acceptAll :: "byte list list \<Rightarrow> byte list \<Rightarrow> int \<times> error option" where
  "acceptAll h p = (int (length p), None)"

definition bytes_Buffer :: sink where
  "bytes_Buffer = \<lparr>respond = acceptAll, written = []\<rparr>"

text \<open>\<open>errorWriter\<close> of writer_test.go: every call fails.\<close>

definition errorWriter :: sink where
  "errorWriter = \<lparr>respond = (\<lambda>h p. (0, Some (errors_New ''write error''))), written = []\<rparr>"

section \<open>The write engine (\<open>FastWriter\<close>)\<close>

record FastWriter =
  fw_w :: sink
  fw_buf :: "byte list"
  fw_pos :: int
  fw_err :: "error option"
  fw_autoFlush :: bool
  fw_limit :: int
  fw_scratch :: "byte list"

definition defaultWriterBufSize :: nat where
  "defaultWriterBufSize = 64 * 1024"

definition NewWriter :: "sink \<Rightarrow> FastWriter" where
  "NewWriter w =
     \<lparr>fw_w = w, fw_buf = replicate defaultWriterBufSize (CHR 0x00), fw_pos = 0, fw_err = None,
      fw_autoFlush = False, fw_limit = int defaultWriterBufSize div 2, fw_scratch = []\<rparr>"

definition NewWriterWithAutoFlush :: "sink \<Rightarrow> int \<Rightarrow> FastWriter" where
  "NewWriterWithAutoFlush w limit =
     (let limit' = (if limit \<le> 0 \<or> limit > int defaultWriterBufSize
                    then int defaultWriterBufSize div 2 else limit)
      in \<lparr>fw_w = w, fw_buf = replicate defaultWriterBufSize (CHR 0x00), fw_pos = 0,
           fw_err = None, fw_autoFlush = True, fw_limit = limit', fw_scratch = []\<rparr>)"

text \<open>\<open>xs[:i]\<close>: the first \<open>i\<close> bytes, a panic when \<open>i\<close> is out of range.\<close>

definition slice_to :: "byte list \<Rightarrow> int \<Rightarrow> byte list outcome" where
  "slice_to xs i = (if 0 \<le> i \<and> i \<le> int (length xs) then Return (take (nat i) xs) else Panic)"

definition Flush :: "FastWriter \<Rightarrow> (error option \<times> FastWriter) outcome" where
  "Flush fw =
     (if fw_err fw \<noteq> None then Return (fw_err fw, fw)
      else if fw_pos fw = 0 then Return (None, fw)
      else
        (case slice_to (fw_buf fw) (fw_pos fw) of
           Panic \<Rightarrow> Panic
         | Return p \<Rightarrow>
             (case sink_Write (fw_w fw) p of
                ((n, Some e), w') \<Rightarrow>
                  Return (Some e, fw\<lparr>fw_w := w', fw_err := Some (writerError e)\<rparr>)
              | ((n, None), w') \<Rightarrow>
                  if n < fw_pos fw then
                    Return (Some (writerError ErrShortWrite),
                            fw\<lparr>fw_w := w', fw_err := Some (writerError ErrShortWrite)\<rparr>)
                  else Return (None, fw\<lparr>fw_w := w', fw_pos := 0\<rparr>))))"

definition checkWriter :: "FastWriter \<Rightarrow> error option \<times> FastWriter" where
  "checkWriter fw =
     (if fw_err fw \<noteq> None then (fw_err fw, fw)
      else
        (case sink_Write (fw_w fw) [] of
           ((n, Some e), w') \<Rightarrow>
             (Some (writerError e), fw\<lparr>fw_w := w', fw_err := Some (writerError e)\<rparr>)
         | ((n, None), w') \<Rightarrow> (None, fw\<lparr>fw_w := w'\<rparr>)))"

definition ensureSpace :: "FastWriter \<Rightarrow> int \<Rightarrow> (error option \<times> FastWriter) outcome" where
  "ensureSpace fw n =
     (if fw_err fw \<noteq> None then Return (fw_err fw, fw)
      else
        (case (if fw_pos fw = 0 then checkWriter fw else (None, fw)) of
           (Some e, fw1) \<Rightarrow> Return (Some e, fw1)
         | (None, fw1) \<Rightarrow>
             if n > int (length (fw_buf fw1)) then
               (case Flush fw1 of
                  Panic \<Rightarrow> Panic
                | Return (Some e, fw2) \<Rightarrow> Return (Some e, fw2)
                | Return (None, fw2) \<Rightarrow>
                    (case sink_Write (fw_w fw2) [] of
                       ((k, Some e), w') \<Rightarrow>
                         Return (Some e, fw2\<lparr>fw_w := w', fw_err := Some (writerError e)\<rparr>)
                     | ((k, None), w') \<Rightarrow> Return (None, fw2\<lparr>fw_w := w'\<rparr>)))
             else if fw_pos fw1 + n > int (length (fw_buf fw1)) then
               (case Flush fw1 of
                  Panic \<Rightarrow> Panic
                | Return (Some e, fw2) \<Rightarrow> Return (Some e, fw2)
                | Return (None, fw2) \<Rightarrow> Return (None, fw2))
             else Return (None, fw1)))"

text \<open>
  \<open>n := copy(fw.buf[fw.pos:], p); fw.pos += n\<close>: as many bytes of \<open>p\<close> as fit behind \<open>pos\<close> are
  stored there; the slice panics when \<open>pos\<close> is out of range.
\<close>

definition copy_in :: "FastWriter \<Rightarrow> byte list \<Rightarrow> (nat \<times> FastWriter) outcome" where
  "copy_in fw p =
     (if 0 \<le> fw_pos fw \<and> fw_pos fw \<le> int (length (fw_buf fw)) then
        (let n = min (length (fw_buf fw) - nat (fw_pos fw)) (length p)
         in Return (n, fw\<lparr>fw_buf := take (nat (fw_pos fw)) (fw_buf fw) @ take n p @
                                     drop (nat (fw_pos fw) + n) (fw_buf fw),
                          fw_pos := fw_pos fw + int n\<rparr>))
      else Panic)"

text \<open>
  The loop of \<open>Write\<close>; \<open>tot\<close> is its variable \<open>total\<close>. It does not end when no byte can be copied and the sink keeps
  accepting (a buffer of length zero): not returning is the value \<open>None\<close>.
\<close>

partial_function (option) Write_loop ::
  "FastWriter \<Rightarrow> byte list \<Rightarrow> int \<Rightarrow> (int \<times> error option \<times> FastWriter) outcome option" where
  "Write_loop fw p tot =
     (if length p > 0 then
        (case ensureSpace fw (int (length p)) of
           Panic \<Rightarrow> Some Panic
         | Return (Some e, fw1) \<Rightarrow> Some (Return (tot, Some e, fw1))
         | Return (None, fw1) \<Rightarrow>
             (case copy_in fw1 p of
                Panic \<Rightarrow> Some Panic
              | Return (n, fw2) \<Rightarrow>
                  if fw_autoFlush fw2 \<and> fw_pos fw2 \<ge> fw_limit fw2 then
                    (case Flush fw2 of
                       Panic \<Rightarrow> Some Panic
                     | Return (Some e, fw3) \<Rightarrow> Some (Return (tot + int n, Some e, fw3))
                     | Return (None, fw3) \<Rightarrow> Write_loop fw3 (drop n p) (tot + int n))
                  else Write_loop fw2 (drop n p) (tot + int n)))
      else Some (Return (tot, None, fw)))"

declare Write_loop.simps [code]

definition Write :: "FastWriter \<Rightarrow> byte list \<Rightarrow> (int \<times> error option \<times> FastWriter) outcome option" where
  "Write fw p = (if fw_err fw \<noteq> None then Some (Return (0, fw_err fw, fw)) else Write_loop fw p 0)"

definition WriteByte :: "FastWriter \<Rightarrow> byte \<Rightarrow> (error option \<times> FastWriter) outcome" where
  "WriteByte fw b =
     (case ensureSpace fw 1 of
        Panic \<Rightarrow> Panic
      | Return (Some e, fw1) \<Rightarrow> Return (Some e, fw1)
      | Return (None, fw1) \<Rightarrow>
          if 0 \<le> fw_pos fw1 \<and> fw_pos fw1 < int (length (fw_buf fw1)) then
            (let fw2 = fw1\<lparr>fw_buf := (fw_buf fw1)[nat (fw_pos fw1) := b], fw_pos := fw_pos fw1 + 1\<rparr>
             in if fw_autoFlush fw2 \<and> fw_pos fw2 \<ge> fw_limit fw2 then Flush fw2
                else Return (None, fw2))
          else Panic)"

definition WriteBytes :: "FastWriter \<Rightarrow> byte list \<Rightarrow> (error option \<times> FastWriter) outcome option" where
  "WriteBytes fw b =
     (case Write fw b of
        None \<Rightarrow> None
      | Some Panic \<Rightarrow> Some Panic
      | Some (Return (n, e, fw1)) \<Rightarrow> Some (Return (e, fw1)))"

definition WriteString :: "FastWriter \<Rightarrow> string \<Rightarrow> (error option \<times> FastWriter) outcome option" where
  "WriteString fw s = WriteBytes fw s"

definition WriteLine :: "FastWriter \<Rightarrow> string \<Rightarrow> (error option \<times> FastWriter) outcome option" where
  "WriteLine fw s =
     (case WriteString fw s of
        None \<Rightarrow> None
      | Some Panic \<Rightarrow> Some Panic
      | Some (Return (Some e, fw1)) \<Rightarrow> Some (Return (Some e, fw1))
      | Some (Return (None, fw1)) \<Rightarrow> Some (WriteByte fw1 (CHR 0x0A)))"

text \<open>
  \<open>strconv.AppendInt(dst, i, 10)\<close> of Go's standard library: the decimal digits of \<open>i\<close>, most
  significant first, no leading zero but for \<open>0\<close> itself, after a \<open>-\<close> when \<open>i\<close> is negative.
\<close>

definition digitChar :: "nat \<Rightarrow> byte" where
  "digitChar d = char_of (48 + d)"

function decimal :: "nat \<Rightarrow> byte list" where
  "decimal n = (if n < 10 then [digitChar n] else decimal (n div 10) @ [digitChar (n mod 10)])"
  by pat_completeness auto
termination
  by (relation "measure id") auto

declare decimal.simps [simp del]

definition AppendInt :: "byte list \<Rightarrow> int \<Rightarrow> byte list" where
  "AppendInt dst i = dst @ (if i < 0 then CHR ''-'' # decimal (nat (- i)) else decimal (nat i))"

text \<open>\<open>WriteInt\<close>: \<open>int64(v)\<close> is the signed value of the machine integer.\<close>

definition WriteInt :: "FastWriter \<Rightarrow> go_int \<Rightarrow> (error option \<times> FastWriter) outcome option" where
  "WriteInt fw v =
     (let fw1 = fw\<lparr>fw_scratch := AppendInt [] (sint v)\<rparr>
      in WriteBytes fw1 (fw_scratch fw1))"

text \<open>\<open>strconv.AppendUint(dst, u, 10)\<close>: the decimal digits of \<open>u\<close>.\<close>

definition AppendUint :: "byte list \<Rightarrow> nat \<Rightarrow> byte list" where
  "AppendUint dst u = dst @ decimal u"

definition WriteInt64 :: "FastWriter \<Rightarrow> int64 \<Rightarrow> (error option \<times> FastWriter) outcome option" where
  "WriteInt64 fw v =
     (let fw1 = fw\<lparr>fw_scratch := AppendInt [] (sint v)\<rparr>
      in WriteBytes fw1 (fw_scratch fw1))"

definition WriteUint64 :: "FastWriter \<Rightarrow> uint64 \<Rightarrow> (error option \<times> FastWriter) outcome option" where
  "WriteUint64 fw v =
     (let fw1 = fw\<lparr>fw_scratch := AppendUint [] (unat v)\<rparr>
      in WriteBytes fw1 (fw_scratch fw1))"

text \<open>
  \<open>WriteFloat64\<close>: \<open>strconv.AppendFloat(dst, v, 'f', prec, 64)\<close> of Go's standard library is
  a parameter here, as is the type of its values.
\<close>

definition WriteFloat64 ::
  "(byte list \<Rightarrow> 'f \<Rightarrow> int \<Rightarrow> byte list) \<Rightarrow> FastWriter \<Rightarrow> 'f \<Rightarrow> int \<Rightarrow>
   (error option \<times> FastWriter) outcome option" where
  "WriteFloat64 AppendFloat fw v prec =
     (let fw1 = fw\<lparr>fw_scratch := AppendFloat [] v prec\<rparr>
      in WriteBytes fw1 (fw_scratch fw1))"

section \<open>The write engine over a sink that accepts every byte\<close>

text \<open>
  A writer that can go on: no sticky error, the position within a buffer of positive
  length, over a sink that accepts every byte.
\<close>

definition winv :: "FastWriter \<Rightarrow> bool" where
  "winv fw \<longleftrightarrow>
     fw_err fw = None \<and> 0 \<le> fw_pos fw \<and> fw_pos fw \<le> int (length (fw_buf fw)) \<and>
     0 < length (fw_buf fw) \<and> respond (fw_w fw) = acceptAll"

text \<open>The bytes written so far: what the sink has received, then what the buffer holds.\<close>

definition woutput :: "FastWriter \<Rightarrow> byte list" where
  "woutput fw = concat (written (fw_w fw)) @ take (nat (fw_pos fw)) (fw_buf fw)"

text \<open>The writer after the sink has accepted a zero-length write.\<close>

definition probed :: "FastWriter \<Rightarrow> FastWriter" where
  "probed fw = fw\<lparr>fw_w := (fw_w fw)\<lparr>written := written (fw_w fw) @ [[]]\<rparr>\<rparr>"

text \<open>The writer after the sink has accepted the buffered bytes, if there are any.\<close>

definition flushed :: "FastWriter \<Rightarrow> FastWriter" where
  "flushed fw =
     (if fw_pos fw = 0 then fw
      else fw\<lparr>fw_w := (fw_w fw)\<lparr>written := written (fw_w fw) @ [take (nat (fw_pos fw)) (fw_buf fw)]\<rparr>,
              fw_pos := 0\<rparr>)"

text \<open>The writer after \<open>copy\<close> has stored the first \<open>n\<close> bytes of \<open>p\<close> behind \<open>pos\<close>.\<close>

definition stored :: "FastWriter \<Rightarrow> nat \<Rightarrow> byte list \<Rightarrow> FastWriter" where
  "stored fw n p =
     fw\<lparr>fw_buf := take (nat (fw_pos fw)) (fw_buf fw) @ take n p @ drop (nat (fw_pos fw) + n) (fw_buf fw),
        fw_pos := fw_pos fw + int n\<rparr>"

lemma Flush_ok: "winv fw \<Longrightarrow> Flush fw = Return (None, flushed fw)"
  by (auto simp: winv_def Flush_def flushed_def slice_to_def sink_Write_def acceptAll_def
      split: if_splits)

lemma checkWriter_ok: "winv fw \<Longrightarrow> checkWriter fw = (None, probed fw)"
  by (auto simp: winv_def checkWriter_def probed_def sink_Write_def acceptAll_def)

lemma winv_probed: "winv fw \<Longrightarrow> winv (probed fw)"
  by (auto simp: winv_def probed_def)

lemma winv_flushed: "winv fw \<Longrightarrow> winv (flushed fw)"
  by (auto simp: winv_def flushed_def)

lemma woutput_probed: "woutput (probed fw) = woutput fw"
  by (auto simp: woutput_def probed_def)

lemma woutput_flushed: "woutput (flushed fw) = woutput fw"
  by (auto simp: woutput_def flushed_def)

text \<open>The writer after \<open>ensureSpace(n)\<close>, over such a sink.\<close>

definition prepared :: "FastWriter \<Rightarrow> int \<Rightarrow> FastWriter" where
  "prepared fw n =
     (let fw1 = (if fw_pos fw = 0 then probed fw else fw)
      in if n > int (length (fw_buf fw1)) then probed (flushed fw1)
         else if fw_pos fw1 + n > int (length (fw_buf fw1)) then flushed fw1
         else fw1)"

lemma ensureSpace_ok: "winv fw \<Longrightarrow> ensureSpace fw n = Return (None, prepared fw n)"
proof -
  assume w: "winv fw"
  define fw1 where "fw1 = (if fw_pos fw = 0 then probed fw else fw)"
  have w1: "winv fw1" using w by (simp add: fw1_def winv_probed)
  have c: "(if fw_pos fw = 0 then checkWriter fw else (None, fw)) = (None, fw1)"
    using w by (simp add: fw1_def checkWriter_ok)
  have f: "Flush fw1 = Return (None, flushed fw1)" by (rule Flush_ok[OF w1])
  have p: "sink_Write (fw_w (flushed fw1)) [] = ((0, None), fw_w (probed (flushed fw1)))"
    using winv_flushed[OF w1] by (simp add: sink_Write_def winv_def acceptAll_def probed_def)
  have q: "flushed fw1\<lparr>fw_w := fw_w (probed (flushed fw1))\<rparr> = probed (flushed fw1)"
    by (simp add: probed_def)
  from w show ?thesis
    unfolding ensureSpace_def c prepared_def fw1_def[symmetric] Let_def
    by (simp add: f p q winv_def)
qed

lemma winv_prepared: "winv fw \<Longrightarrow> winv (prepared fw n)"
  by (simp add: prepared_def Let_def winv_probed winv_flushed)

lemma woutput_prepared: "woutput (prepared fw n) = woutput fw"
  by (simp add: prepared_def Let_def woutput_probed woutput_flushed)

lemma length_buf_prepared: "length (fw_buf (prepared fw n)) = length (fw_buf fw)"
  by (simp add: prepared_def Let_def probed_def flushed_def)

lemma room_prepared:
  "winv fw \<Longrightarrow> 0 < n \<Longrightarrow>
   (if n > int (length (fw_buf fw)) then fw_pos (prepared fw n) = 0
    else fw_pos (prepared fw n) + n \<le> int (length (fw_buf fw)))"
  by (auto simp: prepared_def Let_def probed_def flushed_def winv_def)

lemma copy_in_ok:
  "winv fw \<Longrightarrow>
   copy_in fw p = Return (min (length (fw_buf fw) - nat (fw_pos fw)) (length p),
                          stored fw (min (length (fw_buf fw) - nat (fw_pos fw)) (length p)) p)"
  by (simp add: copy_in_def stored_def winv_def Let_def)

lemma winv_stored:
  "winv fw \<Longrightarrow> n \<le> length (fw_buf fw) - nat (fw_pos fw) \<Longrightarrow> n \<le> length p \<Longrightarrow> winv (stored fw n p)"
  by (auto simp: winv_def stored_def)

lemma woutput_stored:
  "winv fw \<Longrightarrow> n \<le> length (fw_buf fw) - nat (fw_pos fw) \<Longrightarrow> n \<le> length p \<Longrightarrow>
   woutput (stored fw n p) = woutput fw @ take n p"
  by (auto simp: winv_def stored_def woutput_def nat_add_distrib min_def)


text \<open>What no operation of the write engine changes.\<close>

definition config :: "FastWriter \<Rightarrow> nat \<times> bool \<times> int \<times> byte list" where
  "config fw = (length (fw_buf fw), fw_autoFlush fw, fw_limit fw, fw_scratch fw)"

lemma config_steps:
  "config (probed fw) = config fw" "config (flushed fw) = config fw" "config (prepared fw n) = config fw"
  by (auto simp: config_def probed_def flushed_def prepared_def Let_def)

lemma config_stored:
  "winv fw \<Longrightarrow> n \<le> length (fw_buf fw) - nat (fw_pos fw) \<Longrightarrow> n \<le> length p \<Longrightarrow>
   config (stored fw n p) = config fw"
  by (auto simp: config_def stored_def winv_def)

text \<open>No call the sink receives carries more bytes than the buffer holds.\<close>

definition callsBounded :: "FastWriter \<Rightarrow> bool" where
  "callsBounded fw \<longleftrightarrow> list_all (\<lambda>q. length q \<le> length (fw_buf fw)) (written (fw_w fw))"

lemma callsBounded_steps:
  "callsBounded fw \<Longrightarrow> callsBounded (probed fw)"
  "callsBounded fw \<Longrightarrow> callsBounded (flushed fw)"
  "callsBounded fw \<Longrightarrow> callsBounded (prepared fw n)"
  by (auto simp: callsBounded_def probed_def flushed_def prepared_def Let_def)

lemma callsBounded_stored:
  "winv fw \<Longrightarrow> n \<le> length (fw_buf fw) - nat (fw_pos fw) \<Longrightarrow> n \<le> length p \<Longrightarrow>
   callsBounded fw \<Longrightarrow> callsBounded (stored fw n p)"
  by (auto simp: callsBounded_def stored_def winv_def)

lemma Write_loop_ok:
  "winv fw \<Longrightarrow>
   \<exists>fw'. Write_loop fw p tot = Some (Return (tot + int (length p), None, fw')) \<and> winv fw' \<and>
         woutput fw' = woutput fw @ p \<and> config fw' = config fw \<and>
         (if callsBounded fw then callsBounded fw' else True)"
proof (induction "length p" arbitrary: fw p tot rule: less_induct)
  case less
  show ?case
  proof (cases "p = []")
    case True
    with less(2) show ?thesis by (subst Write_loop.simps) simp
  next
    case False
    define fw1 where "fw1 = prepared fw (int (length p))"
    define n where "n = min (length (fw_buf fw1) - nat (fw_pos fw1)) (length p)"
    define fw2 where "fw2 = stored fw1 n p"
    define fw3 where "fw3 = (if fw_autoFlush fw2 \<and> fw_pos fw2 \<ge> fw_limit fw2 then flushed fw2 else fw2)"
    have w1: "winv fw1" using less(2) by (simp add: fw1_def winv_prepared)
    have lp: "0 < int (length p)" using False by simp
    have l1: "length (fw_buf fw1) = length (fw_buf fw)" by (simp add: fw1_def length_buf_prepared)
    have lt1: "fw_pos fw1 < int (length (fw_buf fw1))"
    proof (cases "int (length p) > int (length (fw_buf fw))")
      case True
      with room_prepared[OF less(2) lp] have "fw_pos fw1 = 0" by (simp add: fw1_def)
      with w1 show ?thesis by (simp add: winv_def)
    next
      case False
      with room_prepared[OF less(2) lp] have "fw_pos fw1 + int (length p) \<le> int (length (fw_buf fw))"
        by (simp add: fw1_def)
      with lp l1 show ?thesis by linarith
    qed
    have "0 \<le> fw_pos fw1" using w1 by (simp add: winv_def)
    with lt1 have "0 < length (fw_buf fw1) - nat (fw_pos fw1)" by linarith
    with False have npos: "0 < n" by (simp add: n_def)
    have nle: "n \<le> length (fw_buf fw1) - nat (fw_pos fw1)" "n \<le> length p" by (auto simp: n_def)
    have w2: "winv fw2" unfolding fw2_def by (rule winv_stored[OF w1 nle])
    have w3: "winv fw3" using w2 by (simp add: fw3_def winv_flushed)
    have o3: "woutput fw3 = woutput fw @ take n p"
      using woutput_stored[OF w1 nle] by (simp add: fw3_def fw2_def fw1_def woutput_flushed woutput_prepared)
    have s3: "config fw3 = config fw"
      using config_stored[OF w1 nle] by (simp add: fw3_def fw2_def fw1_def config_steps)
    have c3: "callsBounded fw3" if "callsBounded fw"
      using that callsBounded_stored[OF w1 nle] by (simp add: fw3_def fw2_def fw1_def callsBounded_steps)
    have step: "Write_loop fw p tot = Write_loop fw3 (drop n p) (tot + int n)"
      using False
      by (subst Write_loop.simps)
         (simp add: ensureSpace_ok[OF less(2)] fw1_def[symmetric] copy_in_ok[OF w1] n_def[symmetric]
            fw2_def[symmetric] Flush_ok[OF w2] fw3_def)
    have "length (drop n p) < length p" using npos False by simp
    from less(1)[OF this w3, of "tot + int n"] obtain fw' where
      r: "Write_loop fw3 (drop n p) (tot + int n) = Some (Return (tot + int n + int (length (drop n p)), None, fw'))"
         "winv fw'" "woutput fw' = woutput fw3 @ drop n p" "config fw' = config fw3"
         "if callsBounded fw3 then callsBounded fw' else True" by blast
    have "tot + int n + int (length (drop n p)) = tot + int (length p)" using nle by simp
    with r step o3 s3 c3 show ?thesis by auto
  qed
qed

lemma Write_ok:
  "winv fw \<Longrightarrow>
   \<exists>fw'. Write fw p = Some (Return (int (length p), None, fw')) \<and> winv fw' \<and>
         woutput fw' = woutput fw @ p \<and> config fw' = config fw \<and>
         (if callsBounded fw then callsBounded fw' else True)"
  using Write_loop_ok[of fw p 0] by (simp add: Write_def winv_def)

lemma WriteBytes_ok:
  "winv fw \<Longrightarrow>
   \<exists>fw'. WriteBytes fw p = Some (Return (None, fw')) \<and> winv fw' \<and>
         woutput fw' = woutput fw @ p \<and> config fw' = config fw"
  using Write_ok[of fw p] by (auto simp: WriteBytes_def)

lemma WriteInt_ok:
  assumes "winv fw"
  shows "\<exists>fw'. WriteInt fw v = Some (Return (None, fw')) \<and> winv fw' \<and>
         woutput fw' = woutput fw @ AppendInt [] (sint v) \<and> length (fw_buf fw') = length (fw_buf fw)"
proof -
  define fw1 where "fw1 = fw\<lparr>fw_scratch := AppendInt [] (sint v)\<rparr>"
  have w1: "winv fw1" using assms by (simp add: fw1_def winv_def)
  have o1: "woutput fw1 = woutput fw" by (simp add: fw1_def woutput_def)
  from WriteBytes_ok[OF w1, of "AppendInt [] (sint v)"] o1 show ?thesis
    by (auto simp: WriteInt_def Let_def fw1_def config_def)
qed

lemma WriteByte_ok:
  assumes "winv fw"
  shows "\<exists>fw'. WriteByte fw b = Return (None, fw') \<and> winv fw' \<and>
         woutput fw' = woutput fw @ [b] \<and> length (fw_buf fw') = length (fw_buf fw)"
proof -
  define fw1 where "fw1 = prepared fw 1"
  define fw2 where "fw2 = fw1\<lparr>fw_buf := (fw_buf fw1)[nat (fw_pos fw1) := b], fw_pos := fw_pos fw1 + 1\<rparr>"
  define fw3 where "fw3 = (if fw_autoFlush fw2 \<and> fw_pos fw2 \<ge> fw_limit fw2 then flushed fw2 else fw2)"
  have w1: "winv fw1" using assms by (simp add: fw1_def winv_prepared)
  from room_prepared[OF assms, of 1] assms have lt: "fw_pos fw1 < int (length (fw_buf fw1))"
    by (auto simp: fw1_def length_buf_prepared winv_def split: if_splits)
  have w2: "winv fw2" using w1 lt by (auto simp: fw2_def winv_def)
  have k: "nat (fw_pos fw1) < length (fw_buf fw1)" using w1 lt unfolding winv_def by linarith
  have k1: "nat (fw_pos fw1 + 1) = Suc (nat (fw_pos fw1))" using w1 by (simp add: winv_def nat_add_distrib)
  have "take (nat (fw_pos fw1 + 1)) ((fw_buf fw1)[nat (fw_pos fw1) := b]) = take (nat (fw_pos fw1)) (fw_buf fw1) @ [b]"
    unfolding k1 using k by (simp add: take_Suc_conv_app_nth)
  then have o2: "woutput fw2 = woutput fw @ [b]"
    using woutput_prepared[of fw 1] by (simp add: fw2_def woutput_def fw1_def)
  have o3: "woutput fw3 = woutput fw @ [b]" using o2 by (simp add: fw3_def woutput_flushed)
  have w3: "winv fw3" using w2 by (simp add: fw3_def winv_flushed)
  have l3: "length (fw_buf fw3) = length (fw_buf fw)"
    by (simp add: fw3_def fw2_def fw1_def flushed_def length_buf_prepared)
  have "WriteByte fw b = Return (None, fw3)"
    using w1 lt
    by (simp add: WriteByte_def ensureSpace_ok[OF assms] fw1_def[symmetric] winv_def Let_def
        fw2_def[symmetric] Flush_ok[OF w2] fw3_def)
  with w3 o3 l3 show ?thesis by simp
qed

section \<open>The calls the sink receives\<close>

lemma Flush_grows:
  "Flush fw = Return (r, fw') \<Longrightarrow> \<exists>more. written (fw_w fw') = written (fw_w fw) @ more"
  by (auto simp: Flush_def sink_Write_def split: if_splits outcome.splits option.splits prod.splits)

lemma checkWriter_probe:
  "fw_err fw = None \<Longrightarrow> checkWriter fw = (r, fw') \<Longrightarrow> written (fw_w fw') = written (fw_w fw) @ [[]]"
  by (auto simp: checkWriter_def sink_Write_def split: option.splits prod.splits)

lemma ensureSpace_grows:
  "ensureSpace fw n = Return (r, fw') \<Longrightarrow> \<exists>more. written (fw_w fw') = written (fw_w fw) @ more"
proof -
  assume a: "ensureSpace fw n = Return (r, fw')"
  show ?thesis
  proof (cases "fw_err fw")
    case (Some e)
    with a show ?thesis by (simp add: ensureSpace_def)
  next
    case None
    obtain r1 fw1 where c: "(if fw_pos fw = 0 then checkWriter fw else (None, fw)) = (r1, fw1)"
      by (cases "(if fw_pos fw = 0 then checkWriter fw else (None, fw))")
    then have g1: "\<exists>more. written (fw_w fw1) = written (fw_w fw) @ more"
      using checkWriter_probe[OF None, of r1 fw1] by (auto split: if_splits)
    from a None c g1 show ?thesis
      by (auto simp: ensureSpace_def sink_Write_def
          split: if_splits outcome.splits option.splits prod.splits dest!: Flush_grows)
  qed
qed

lemma ensureSpace_probe:
  assumes "fw_err fw = None" "fw_pos fw = 0" "ensureSpace fw n = Return (r, fw')"
  shows "\<exists>more. written (fw_w fw') = written (fw_w fw) @ [] # more"
proof -
  obtain r1 fw1 where c: "checkWriter fw = (r1, fw1)" by (cases "checkWriter fw")
  note p = checkWriter_probe[OF assms(1) c]
  from assms c p show ?thesis
    by (auto simp: ensureSpace_def sink_Write_def
        split: if_splits outcome.splits option.splits prod.splits dest!: Flush_grows)
qed

lemma copy_in_sink: "copy_in fw p = Return (n, fw') \<Longrightarrow> fw_w fw' = fw_w fw"
  by (auto simp: copy_in_def Let_def split: if_splits)


text \<open>A result of \<open>Write\<close> whose sink has received the calls it had received before, and more.\<close>

definition grows :: "FastWriter \<Rightarrow> (int \<times> error option \<times> FastWriter) outcome \<Rightarrow> bool" where
  "grows fw y =
     (case y of Panic \<Rightarrow> True
      | Return (k, e, fw') \<Rightarrow> \<exists>more. written (fw_w fw') = written (fw_w fw) @ more)"

lemma Write_loop_grows:
  assumes "Write_loop fw p tot = Some y"
  shows "grows fw y"
proof (rule Write_loop.raw_induct[where P = "\<lambda>fw p tot y. grows fw y", OF _ assms], goal_cases)
  case (1 Write_loop fw p tot y)
  show ?case
  proof (cases "0 < length p")
    case False
    with 1(2) show ?thesis by (auto simp: grows_def)
  next
    case True
    show ?thesis
    proof (cases "ensureSpace fw (int (length p))")
      case Panic
      with 1(2) True show ?thesis by (auto simp: grows_def)
    next
      case (Return x)
      obtain r fw1 where x: "x = (r, fw1)" by (cases x)
      from ensureSpace_grows[of fw "int (length p)" r fw1] Return x obtain m1 where
        g1: "written (fw_w fw1) = written (fw_w fw) @ m1" by auto
      show ?thesis
      proof (cases r)
        case (Some e)
        with 1(2) True Return x g1 show ?thesis by (auto simp: grows_def)
      next
        case None
        show ?thesis
        proof (cases "copy_in fw1 p")
          case Panic
          with 1(2) True Return x None show ?thesis by (auto simp: grows_def)
        next
          case (Return c)
          obtain n fw2 where c: "c = (n, fw2)" by (cases c)
          from copy_in_sink[of fw1 p n fw2] Return c have s2: "fw_w fw2 = fw_w fw1" by simp
          show ?thesis
          proof (cases "fw_autoFlush fw2 \<and> fw_limit fw2 \<le> fw_pos fw2")
            case False
            with 1(2) True \<open>ensureSpace fw (int (length p)) = Return x\<close> x None Return c
            have "Write_loop fw2 (drop n p) (tot + int n) = Some y" by auto
            from 1(1)[OF this] g1 s2 show ?thesis by (auto simp: grows_def split: outcome.splits)
          next
            case af: True
            show ?thesis
            proof (cases "Flush fw2")
              case Panic
              with 1(2) True \<open>ensureSpace fw (int (length p)) = Return x\<close> x None Return c af
              show ?thesis by (auto simp: grows_def)
            next
              case (Return f)
              obtain r3 fw3 where f: "f = (r3, fw3)" by (cases f)
              from Flush_grows[of fw2 r3 fw3] Return f obtain m3 where
                g3: "written (fw_w fw3) = written (fw_w fw2) @ m3" by auto
              show ?thesis
              proof (cases r3)
                case (Some e)
                with 1(2) True \<open>ensureSpace fw (int (length p)) = Return x\<close> x None
                  \<open>copy_in fw1 p = Return c\<close> c af Return f g1 s2 g3
                show ?thesis by (auto simp: grows_def)
              next
                case n3: None
                with 1(2) True \<open>ensureSpace fw (int (length p)) = Return x\<close> x None
                  \<open>copy_in fw1 p = Return c\<close> c af Return f
                have "Write_loop fw3 (drop n p) (tot + int n) = Some y" by auto
                from 1(1)[OF this] g1 s2 g3 show ?thesis by (auto simp: grows_def split: outcome.splits)
              qed
            qed
          qed
        qed
      qed
    qed
  qed
qed

lemma Write_loop_probe:
  assumes "fw_err fw = None" "fw_pos fw = 0" "p \<noteq> []"
    and "Write_loop fw p tot = Some (Return (k, e, fw'))"
  shows "\<exists>more. written (fw_w fw') = written (fw_w fw) @ [] # more"
proof (cases "ensureSpace fw (int (length p))")
  case Panic
  with assms show ?thesis by (subst (asm) Write_loop.simps) auto
next
  case (Return x)
  obtain r fw1 where x: "x = (r, fw1)" by (cases x)
  from ensureSpace_probe[OF assms(1,2), of "int (length p)" r fw1] Return x obtain m1 where
    g1: "written (fw_w fw1) = written (fw_w fw) @ [] # m1" by auto
  show ?thesis
  proof (cases r)
    case (Some e1)
    with assms Return x g1 show ?thesis by (subst (asm) Write_loop.simps) auto
  next
    case None
    show ?thesis
    proof (cases "copy_in fw1 p")
      case Panic
      with assms \<open>ensureSpace fw (int (length p)) = Return x\<close> x None show ?thesis
        by (subst (asm) Write_loop.simps) auto
    next
      case (Return c)
      obtain n fw2 where c: "c = (n, fw2)" by (cases c)
      from copy_in_sink[of fw1 p n fw2] Return c have s2: "fw_w fw2 = fw_w fw1" by simp
      show ?thesis
      proof (cases "fw_autoFlush fw2 \<and> fw_limit fw2 \<le> fw_pos fw2")
        case False
        with assms \<open>ensureSpace fw (int (length p)) = Return x\<close> x None Return c
        have "Write_loop fw2 (drop n p) (tot + int n) = Some (Return (k, e, fw'))"
          by (subst (asm) Write_loop.simps) auto
        from Write_loop_grows[OF this] g1 s2 show ?thesis by (auto simp: grows_def)
      next
        case af: True
        show ?thesis
        proof (cases "Flush fw2")
          case Panic
          with assms \<open>ensureSpace fw (int (length p)) = Return x\<close> x None Return c af
          show ?thesis by (subst (asm) Write_loop.simps) auto
        next
          case (Return f)
          obtain r3 fw3 where f: "f = (r3, fw3)" by (cases f)
          from Flush_grows[of fw2 r3 fw3] Return f obtain m3 where
            g3: "written (fw_w fw3) = written (fw_w fw2) @ m3" by auto
          show ?thesis
          proof (cases r3)
            case (Some e3)
            with assms \<open>ensureSpace fw (int (length p)) = Return x\<close> x None
              \<open>copy_in fw1 p = Return c\<close> c af Return f g1 s2 g3
            show ?thesis by (subst (asm) Write_loop.simps) auto
          next
            case n3: None
            with assms \<open>ensureSpace fw (int (length p)) = Return x\<close> x None
              \<open>copy_in fw1 p = Return c\<close> c af Return f
            have "Write_loop fw3 (drop n p) (tot + int n) = Some (Return (k, e, fw'))"
              by (subst (asm) Write_loop.simps) auto
            from Write_loop_grows[OF this] g1 s2 g3 show ?thesis by (auto simp: grows_def)
          qed
        qed
      qed
    qed
  qed
qed

lemma WriteByte_probe:
  assumes "fw_err fw = None" "fw_pos fw = 0" "WriteByte fw b = Return (e, fw')"
  shows "\<exists>more. written (fw_w fw') = written (fw_w fw) @ [] # more"
proof (cases "ensureSpace fw 1")
  case Panic
  with assms show ?thesis by (simp add: WriteByte_def)
next
  case (Return x)
  obtain r fw1 where x: "x = (r, fw1)" by (cases x)
  from ensureSpace_probe[OF assms(1,2), of 1 r fw1] Return x obtain m1 where
    g1: "written (fw_w fw1) = written (fw_w fw) @ [] # m1" by auto
  show ?thesis
  proof (cases r)
    case (Some e1)
    with assms Return x g1 show ?thesis by (auto simp: WriteByte_def)
  next
    case None
    with assms Return x g1 show ?thesis
      by (auto simp: WriteByte_def Let_def split: if_splits dest!: Flush_grows)
  qed
qed

text \<open>A sink that accepts one byte of every call, and a writer that holds two bytes.\<close>

definition shortSink :: sink where
  "shortSink = \<lparr>respond = (\<lambda>h p. (1, None)), written = []\<rparr>"

definition twoBuffered :: FastWriter where
  "twoBuffered = (NewWriter shortSink)\<lparr>fw_buf := ''ab'' @ replicate 65534 (CHR 0x00), fw_pos := 2\<rparr>"

section \<open>What \<open>Write\<close> does with a sequence\<close>






lemma winv_NewWriter: "winv (NewWriter bytes_Buffer)"
  by (simp add: winv_def NewWriter_def bytes_Buffer_def defaultWriterBufSize_def)


lemma woutput_NewWriter: "woutput (NewWriter bytes_Buffer) = []"
  by (simp add: woutput_def NewWriter_def bytes_Buffer_def)

section \<open>Writing integers and reading them back\<close>

lemma of_char_digitChar: "d < 10 \<Longrightarrow> (of_char (digitChar d) :: nat) = 48 + d"
  by (simp add: digitChar_def)

lemma isDigit_digitChar: "d < 10 \<Longrightarrow> isDigit (digitChar d)"
  by (simp add: isDigit_def notDigit_def of_char_digitChar)

lemma digitVal_digitChar: "d < 10 \<Longrightarrow> digitVal (digitChar d) = of_nat d"
  by (simp add: digitVal_def of_char_digitChar)

lemma decimal_not_Nil: "decimal n \<noteq> []"
  by (subst decimal.simps) simp

lemma decimal_digits: "list_all isDigit (decimal n)"
proof (induction n rule: decimal.induct)
  case (1 n)
  then show ?case by (subst decimal.simps) (simp add: isDigit_digitChar)
qed

lemma accumulate_snoc: "accumulate v (ds @ [b]) = accumulate v ds * 10 + digitVal b"
  by (simp add: accumulate_def)

lemma accumulate_decimal: "accumulate 0 (decimal n) = of_nat n"
proof (induction n rule: decimal.induct)
  case (1 n)
  show ?case
  proof (cases "n < 10")
    case True
    then show ?thesis
      by (subst decimal.simps) (simp add: accumulate_def digitVal_digitChar)
  next
    case False
    have "(of_nat (n div 10) :: go_int) * 10 + of_nat (n mod 10) = of_nat (n div 10 * 10 + n mod 10)"
      by (simp only: of_nat_add of_nat_mult of_nat_numeral)
    moreover have "n div 10 * 10 + n mod 10 = n" by simp
    ultimately have e: "(of_nat (n div 10) :: go_int) * 10 + of_nat (n mod 10) = of_nat n"
      by (simp only:)
    from False 1 show ?thesis
      by (subst decimal.simps) (simp add: accumulate_snoc digitVal_digitChar e)
  qed
qed

lemma takeWhile_digits:
  "list_all isDigit ds \<Longrightarrow> takeWhile isDigit after = [] \<Longrightarrow>
   takeWhile isDigit (ds @ after) = ds \<and> dropWhile isDigit (ds @ after) = after"
  by (induction ds) (auto simp: dropWhile_eq_self_iff takeWhile_eq_Nil_iff)

lemma hd_decimal_not_sign: "decimal n = c # cs \<Longrightarrow> c \<noteq> CHR ''-'' \<and> c \<noteq> CHR ''+'' \<and> \<not> isSpace c"
  using decimal_digits[of n] by (auto simp: isDigit_not_sign isDigit_not_isSpace)

lemma neg_word: "i < 0 \<Longrightarrow> - 1 * (of_nat (nat (- i)) :: go_int) = of_int i"
  by simp

lemma nonneg_word: "0 \<le> i \<Longrightarrow> 1 * (of_nat (nat i) :: go_int) = of_int i"
  by simp

text \<open>Reading back what \<open>WriteInt\<close> wrote.\<close>

lemma NextInt_AppendInt:
  assumes "good fr"
    and "dropWhile isSpace (rest fr) = AppendInt [] (sint v) @ after"
    and "takeWhile isDigit after = []"
  shows "\<exists>fr'. good fr' \<and> rest fr' = after \<and> NextInt fr = Return (v, None, fr')"
proof (cases "sint v < 0")
  case True
  define ds where "ds = decimal (nat (- sint v))"
  have dw: "dropWhile isSpace (rest fr) = CHR ''-'' # (ds @ after)"
    using assms(2) True by (simp add: AppendInt_def ds_def)
  have td: "takeWhile isDigit (ds @ after) = ds" "dropWhile isDigit (ds @ after) = after"
    using takeWhile_digits[OF decimal_digits assms(3), of "nat (- sint v)"] by (auto simp: ds_def)
  have ne: "ds \<noteq> []" by (simp add: ds_def decimal_not_Nil)
  have val: "- 1 * accumulate 0 ds = v"
    using neg_word[OF True] by (simp add: ds_def accumulate_decimal)
  from NextInt_good_token[OF assms(1) dw refl] td ne val show ?thesis
    by (auto simp: NextInt_end_def)
next
  case False
  define ds where "ds = decimal (nat (sint v))"
  obtain c cs where d: "ds = c # cs" using decimal_not_Nil[of "nat (sint v)"] by (cases ds) (auto simp: ds_def)
  have ns: "c \<noteq> CHR ''-''" "c \<noteq> CHR ''+''"
    using hd_decimal_not_sign[of "nat (sint v)" c cs] d by (auto simp: ds_def)
  have dw: "dropWhile isSpace (rest fr) = c # (cs @ after)"
    using assms(2) False d by (simp add: AppendInt_def ds_def)
  have td: "takeWhile isDigit (c # cs @ after) = ds" "dropWhile isDigit (c # cs @ after) = after"
    using takeWhile_digits[OF decimal_digits assms(3), of "nat (sint v)"] d by (auto simp: ds_def)
  have val: "1 * accumulate 0 ds = v"
    using nonneg_word[of "sint v"] False by (simp add: ds_def accumulate_decimal)
  from NextInt_good_token[OF assms(1) dw refl] ns td d val show ?thesis
    by (auto simp: NextInt_end_def)
qed


text \<open>
  The round trip of the claim, as the benchmarks of the repository run its two halves: each
  value is written with \<open>WriteInt\<close> and followed by one byte written with \<open>WriteByte\<close>, stopping
  at the first call that does not return success; and \<open>NextInt\<close> is called a number of times,
  stopping at the first call that does not return success.
\<close>

fun writeInts :: "FastWriter \<Rightarrow> (go_int \<times> byte) list \<Rightarrow> FastWriter option" where
  "writeInts fw [] = Some fw"
| "writeInts fw ((v, s) # xs) =
     (case WriteInt fw v of
        Some (Return (None, fw1)) \<Rightarrow>
          (case WriteByte fw1 s of
             Return (None, fw2) \<Rightarrow> writeInts fw2 xs
           | _ \<Rightarrow> None)
      | _ \<Rightarrow> None)"

fun readInts :: "FastReader \<Rightarrow> nat \<Rightarrow> go_int list option" where
  "readInts fr 0 = Some []"
| "readInts fr (Suc k) =
     (case NextInt fr of
        Return (v, None, fr1) \<Rightarrow> map_option ((#) v) (readInts fr1 k)
      | _ \<Rightarrow> None)"

text \<open>The text of a list of values, each followed by its separator byte.\<close>

definition intsText :: "(go_int \<times> byte) list \<Rightarrow> byte list" where
  "intsText xs = concat (map (\<lambda>(v, s). AppendInt [] (sint v) @ [s]) xs)"

lemma intsText_simps:
  "intsText [] = []"
  "intsText ((v, s) # xs) = AppendInt [] (sint v) @ s # intsText xs"
  by (simp_all add: intsText_def)

lemma AppendInt_head: "\<exists>c cs. AppendInt [] i = c # cs \<and> \<not> isSpace c"
proof (cases "i < 0")
  case True
  then show ?thesis by (simp add: AppendInt_def isSpace_def)
next
  case False
  obtain c cs where "decimal (nat i) = c # cs" using decimal_not_Nil[of "nat i"] by (cases "decimal (nat i)") auto
  with False hd_decimal_not_sign[of "nat i" c cs] show ?thesis by (simp add: AppendInt_def)
qed

lemma dropWhile_intsText: "dropWhile isSpace (intsText xs) = intsText xs"
proof (cases xs)
  case Nil
  then show ?thesis by (simp add: intsText_simps)
next
  case (Cons x xs')
  obtain v s where x: "x = (v, s)" by (cases x)
  from AppendInt_head[of "sint v"] Cons x show ?thesis by (auto simp: intsText_simps)
qed

lemma writeInts_ok:
  "winv fw \<Longrightarrow>
   \<exists>fw'. writeInts fw xs = Some fw' \<and> winv fw' \<and> woutput fw' = woutput fw @ intsText xs"
proof (induction xs arbitrary: fw)
  case Nil
  then show ?case by (simp add: intsText_simps)
next
  case (Cons x xs)
  obtain v s where x: "x = (v, s)" by (cases x)
  from WriteInt_ok[OF Cons(2), of v] obtain fw1 where
    a: "WriteInt fw v = Some (Return (None, fw1))" "winv fw1"
       "woutput fw1 = woutput fw @ AppendInt [] (sint v)" by blast
  from WriteByte_ok[OF a(2), of s] obtain fw2 where
    b: "WriteByte fw1 s = Return (None, fw2)" "winv fw2" "woutput fw2 = woutput fw1 @ [s]" by blast
  from Cons(1)[OF b(2)] obtain fw' where
    c: "writeInts fw2 xs = Some fw'" "winv fw'" "woutput fw' = woutput fw2 @ intsText xs" by blast
  from a b c x show ?case by (simp add: intsText_simps)
qed

lemma readInts_ok:
  "good fr \<Longrightarrow> list_all (\<lambda>(v, s). isSpace s) xs \<Longrightarrow> dropWhile isSpace (rest fr) = intsText xs \<Longrightarrow>
   readInts fr (length xs) = Some (map fst xs)"
proof (induction xs arbitrary: fr)
  case Nil
  then show ?case by simp
next
  case (Cons x xs)
  obtain v s where x: "x = (v, s)" by (cases x)
  from Cons(3) x have sp: "isSpace s" and all: "list_all (\<lambda>(v, s). isSpace s) xs" by auto
  have nd: "takeWhile isDigit (s # intsText xs) = []"
    using sp isDigit_not_isSpace[of s] by auto
  from Cons(4) x have dw: "dropWhile isSpace (rest fr) = AppendInt [] (sint v) @ (s # intsText xs)"
    by (simp add: intsText_simps)
  from NextInt_AppendInt[OF Cons(2) dw nd] obtain fr' where
    n: "good fr'" "rest fr' = s # intsText xs" "NextInt fr = Return (v, None, fr')" by blast
  have "dropWhile isSpace (rest fr') = intsText xs"
    using n(2) sp by (simp add: dropWhile_intsText)
  from Cons(1)[OF n(1) all this] n(3) x show ?case by simp
qed


lemma digitChar_values:
  "digitChar 0 = CHR ''0''" "digitChar 1 = CHR ''1''" "digitChar 2 = CHR ''2''"
  "digitChar 3 = CHR ''3''" "digitChar 4 = CHR ''4''" "digitChar 5 = CHR ''5''"
  "digitChar 6 = CHR ''6''" "digitChar 7 = CHR ''7''" "digitChar 8 = CHR ''8''"
  "digitChar 9 = CHR ''9''"
  by (simp_all add: digitChar_def char_of_def bit_Suc_0_iff)

text \<open>Values at both ends of the range of \<open>int\<close>, zero and a negative value.\<close>

definition sampleInts :: "(go_int \<times> byte) list" where
  "sampleInts = [(- 9223372036854775808, CHR '' ''), (0, CHR 0x0A), (- 456, CHR 0x09),
                 (9223372036854775807, CHR '' '')]"

lemma intsText_sampleInts:
  "intsText sampleInts = ''-9223372036854775808 0\<newline>-456'' @ [CHR 0x09] @ ''9223372036854775807 ''"
  by (simp add: sampleInts_def intsText_def AppendInt_def decimal.simps digitChar_values)

section \<open>Appends over any sink\<close>

text \<open>The position lies within a buffer of positive length.\<close>

definition wrange :: "FastWriter \<Rightarrow> bool" where
  "wrange fw \<longleftrightarrow> 0 \<le> fw_pos fw \<and> fw_pos fw \<le> int (length (fw_buf fw)) \<and> 0 < length (fw_buf fw)"

text \<open>The writer after the sink has failed a zero-length write with \<open>e\<close>.\<close>

definition refused :: "FastWriter \<Rightarrow> error \<Rightarrow> FastWriter" where
  "refused fw e = (probed fw)\<lparr>fw_err := Some (writerError e)\<rparr>"

lemma Flush_returns:
  "wrange fw \<Longrightarrow>
   \<exists>r fw'. Flush fw = Return (r, fw') \<and> wrange fw' \<and> (r = None \<longrightarrow> fw_pos fw' = 0)"
  by (auto simp: wrange_def Flush_def slice_to_def sink_Write_def split: option.splits prod.splits)

lemma ensureSpace_returns:
  assumes "wrange fw" "0 < n"
  shows "\<exists>r fw'. ensureSpace fw n = Return (r, fw') \<and> wrange fw' \<and>
           (r = None \<longrightarrow> fw_pos fw' < int (length (fw_buf fw')))"
proof (cases "fw_err fw")
  case (Some e)
  with assms show ?thesis by (simp add: ensureSpace_def)
next
  case None
  obtain r1 fw1 where c: "(if fw_pos fw = 0 then checkWriter fw else (None, fw)) = (r1, fw1)"
    by (cases "(if fw_pos fw = 0 then checkWriter fw else (None, fw))")
  with assms(1) have w1: "wrange fw1"
    by (auto simp: checkWriter_def sink_Write_def wrange_def split: if_splits option.splits prod.splits)
  show ?thesis
  proof (cases r1)
    case (Some e1)
    with None c w1 show ?thesis by (simp add: ensureSpace_def)
  next
    case r1: None
    from Flush_returns[OF w1] obtain r2 fw2 where
      f: "Flush fw1 = Return (r2, fw2)" "wrange fw2" "r2 = None \<longrightarrow> fw_pos fw2 = 0" by blast
    show ?thesis
    proof (cases r2)
      case (Some e2)
      with None c r1 w1 f assms(2) show ?thesis
        by (auto simp: ensureSpace_def wrange_def)
    next
      case r2: None
      with f have p0: "fw_pos fw2 = 0" by simp
      obtain k r3 where s: "respond (fw_w fw2) (written (fw_w fw2)) [] = (k, r3)"
        by (cases "respond (fw_w fw2) (written (fw_w fw2)) []")
      from None c r1 w1 f r2 p0 s assms(2) show ?thesis
        by (cases r3) (auto simp: ensureSpace_def wrange_def sink_Write_def)
    qed
  qed
qed

lemma copy_in_returns:
  assumes "wrange fw" "fw_pos fw < int (length (fw_buf fw))" "p \<noteq> []"
  shows "\<exists>n fw'. copy_in fw p = Return (n, fw') \<and> 0 < n \<and> n \<le> length p \<and> wrange fw'"
proof -
  define n where "n = min (length (fw_buf fw) - nat (fw_pos fw)) (length p)"
  from assms have n: "0 < n" "n \<le> length p" "int n \<le> int (length (fw_buf fw)) - fw_pos fw"
    by (auto simp: n_def wrange_def)
  from assms n have "wrange (fw\<lparr>fw_buf := take (nat (fw_pos fw)) (fw_buf fw) @ take n p @
                                     drop (nat (fw_pos fw) + n) (fw_buf fw),
                          fw_pos := fw_pos fw + int n\<rparr>)"
    by (auto simp: wrange_def)
  with assms n show ?thesis by (simp add: copy_in_def Let_def wrange_def n_def[symmetric])
qed

lemma Write_loop_returns:
  "wrange fw \<Longrightarrow> \<exists>k e fw'. Write_loop fw p tot = Some (Return (k, e, fw')) \<and> wrange fw'"
proof (induction "length p" arbitrary: fw p tot rule: less_induct)
  case less
  show ?case
  proof (cases "p = []")
    case True
    with less(2) show ?thesis by (subst Write_loop.simps) simp
  next
    case False
    then have lp: "0 < int (length p)" by simp
    from ensureSpace_returns[OF less(2) lp] obtain r fw1 where
      es: "ensureSpace fw (int (length p)) = Return (r, fw1)" "wrange fw1"
        "r = None \<longrightarrow> fw_pos fw1 < int (length (fw_buf fw1))" by blast
    show ?thesis
    proof (cases r)
      case (Some e)
      with False es show ?thesis by (subst Write_loop.simps) simp
    next
      case None
      with es have lt: "fw_pos fw1 < int (length (fw_buf fw1))" by simp
      from copy_in_returns[OF es(2) lt False] obtain n fw2 where
        ci: "copy_in fw1 p = Return (n, fw2)" "0 < n" "n \<le> length p" "wrange fw2" by blast
      from ci False have sh: "length (drop n p) < length p" by simp
      show ?thesis
      proof (cases "fw_autoFlush fw2 \<and> fw_pos fw2 \<ge> fw_limit fw2")
        case False
        from less(1)[OF sh ci(4), of "tot + int n"] obtain k e fw' where
          "Write_loop fw2 (drop n p) (tot + int n) = Some (Return (k, e, fw'))" "wrange fw'"
          by blast
        with \<open>p \<noteq> []\<close> es None ci False show ?thesis by (subst Write_loop.simps) auto
      next
        case True
        from Flush_returns[OF ci(4)] obtain r3 fw3 where
          f: "Flush fw2 = Return (r3, fw3)" "wrange fw3" by blast
        show ?thesis
        proof (cases r3)
          case (Some e3)
          with \<open>p \<noteq> []\<close> es None ci True f show ?thesis by (subst Write_loop.simps) auto
        next
          case r3: None
          from less(1)[OF sh f(2), of "tot + int n"] obtain k e fw' where
            "Write_loop fw3 (drop n p) (tot + int n) = Some (Return (k, e, fw'))" "wrange fw'"
            by blast
          with \<open>p \<noteq> []\<close> es None ci True f r3 show ?thesis by (subst Write_loop.simps) auto
        qed
      qed
    qed
  qed
qed

lemma Write_returns:
  "wrange fw \<Longrightarrow> \<exists>k e fw'. Write fw p = Some (Return (k, e, fw')) \<and> wrange fw'"
  using Write_loop_returns[of fw p 0] by (auto simp: Write_def)

lemma WriteByte_returns:
  assumes "wrange fw"
  shows "\<exists>e fw'. WriteByte fw b = Return (e, fw') \<and> wrange fw'"
proof -
  from ensureSpace_returns[OF assms, of 1] obtain r fw1 where
    es: "ensureSpace fw 1 = Return (r, fw1)" "wrange fw1"
      "r = None \<longrightarrow> fw_pos fw1 < int (length (fw_buf fw1))" by auto
  show ?thesis
  proof (cases r)
    case (Some e)
    with es show ?thesis by (simp add: WriteByte_def)
  next
    case None
    with es have lt: "fw_pos fw1 < int (length (fw_buf fw1))" by simp
    define fw2 where "fw2 = fw1\<lparr>fw_buf := (fw_buf fw1)[nat (fw_pos fw1) := b], fw_pos := fw_pos fw1 + 1\<rparr>"
    from es(2) lt have w2: "wrange fw2" by (auto simp: wrange_def fw2_def)
    from Flush_returns[OF w2] obtain r3 fw3 where f: "Flush fw2 = Return (r3, fw3)" "wrange fw3"
      by blast
    from es None lt w2 f show ?thesis
      by (auto simp: WriteByte_def Let_def fw2_def[symmetric] wrange_def)
  qed
qed

lemma WriteByte_grows:
  assumes "WriteByte fw b = Return (e, fw')"
  shows "\<exists>more. written (fw_w fw') = written (fw_w fw) @ more"
proof (cases "ensureSpace fw 1")
  case Panic
  with assms show ?thesis by (simp add: WriteByte_def)
next
  case (Return x)
  obtain r fw1 where x: "x = (r, fw1)" by (cases x)
  from ensureSpace_grows[of fw 1 r fw1] Return x obtain m1 where
    g1: "written (fw_w fw1) = written (fw_w fw) @ m1" by auto
  show ?thesis
  proof (cases r)
    case (Some e1)
    with assms Return x g1 show ?thesis by (auto simp: WriteByte_def)
  next
    case None
    with assms Return x g1 show ?thesis
      by (auto simp: WriteByte_def Let_def split: if_splits dest!: Flush_grows)
  qed
qed

text \<open>
  An append on an empty buffer of positive length, no sticky error: it returns, and the sink
  has received a zero-length write before anything else.
\<close>

lemma WriteByte_probed:
  assumes "fw_err fw = None" "fw_pos fw = 0" "0 < length (fw_buf fw)"
  shows "\<exists>e fw' more. WriteByte fw b = Return (e, fw') \<and> wrange fw' \<and>
           written (fw_w fw') = written (fw_w fw) @ [] # more"
proof -
  from assms have "wrange fw" by (simp add: wrange_def)
  from WriteByte_returns[OF this, of b] obtain e fw' where
    r: "WriteByte fw b = Return (e, fw')" "wrange fw'" by blast
  from WriteByte_probe[OF assms(1,2) r(1)] r show ?thesis by blast
qed

lemma Write_probed:
  assumes "fw_err fw = None" "fw_pos fw = 0" "0 < length (fw_buf fw)" "p \<noteq> []"
  shows "\<exists>n e fw' more. Write fw p = Some (Return (n, e, fw')) \<and> wrange fw' \<and>
           written (fw_w fw') = written (fw_w fw) @ [] # more"
proof -
  from assms have "wrange fw" by (simp add: wrange_def)
  from Write_returns[OF this, of p] obtain n e fw' where
    r: "Write fw p = Some (Return (n, e, fw'))" "wrange fw'" by blast
  with assms(1) have "Write_loop fw p 0 = Some (Return (n, e, fw'))" by (simp add: Write_def)
  from Write_loop_probe[OF assms(1,2,4) this] r show ?thesis by blast
qed

lemma WriteBytes_probed:
  assumes "fw_err fw = None" "fw_pos fw = 0" "0 < length (fw_buf fw)" "p \<noteq> []"
  shows "\<exists>e fw' more. WriteBytes fw p = Some (Return (e, fw')) \<and> wrange fw' \<and>
           written (fw_w fw') = written (fw_w fw) @ [] # more"
  using Write_probed[OF assms] by (auto simp: WriteBytes_def)

lemma WriteLine_probed:
  assumes "fw_err fw = None" "fw_pos fw = 0" "0 < length (fw_buf fw)"
  shows "\<exists>e fw' more. WriteLine fw s = Some (Return (e, fw')) \<and>
           written (fw_w fw') = written (fw_w fw) @ [] # more"
proof (cases "s = []")
  case True
  then have "WriteString fw s = Some (Return (None, fw))"
    using assms(1)
    by (simp add: WriteString_def WriteBytes_def Write_def Write_loop.simps[of fw "[]"])
  with WriteByte_probed[OF assms, of "CHR 0x0A"] show ?thesis by (auto simp: WriteLine_def)
next
  case False
  from WriteBytes_probed[OF assms False] obtain e fw1 m1 where
    r: "WriteString fw s = Some (Return (e, fw1))" "wrange fw1"
      "written (fw_w fw1) = written (fw_w fw) @ [] # m1" by (auto simp: WriteString_def)
  show ?thesis
  proof (cases e)
    case (Some e1)
    with r show ?thesis by (auto simp: WriteLine_def)
  next
    case None
    from WriteByte_returns[OF r(2), of "CHR 0x0A"] obtain e2 fw2 where
      b: "WriteByte fw1 (CHR 0x0A) = Return (e2, fw2)" by blast
    from WriteByte_grows[OF b] r(3) obtain m2 where
      "written (fw_w fw2) = written (fw_w fw) @ [] # (m1 @ m2)" by auto
    with r None b show ?thesis by (auto simp: WriteLine_def)
  qed
qed

text \<open>The same appends when the sink fails the zero-length write.\<close>

lemma ensureSpace_refused:
  assumes "fw_err fw = None" "fw_pos fw = 0"
    and "respond (fw_w fw) (written (fw_w fw)) [] = (k, Some e)"
  shows "ensureSpace fw n = Return (Some (writerError e), refused fw e)"
proof -
  have cw: "checkWriter fw = (Some (writerError e), refused fw e)"
    using assms by (simp add: checkWriter_def sink_Write_def probed_def refused_def)
  with assms show ?thesis by (simp add: ensureSpace_def)
qed

lemma WriteByte_refused:
  assumes "fw_err fw = None" "fw_pos fw = 0"
    and "respond (fw_w fw) (written (fw_w fw)) [] = (k, Some e)"
  shows "WriteByte fw b = Return (Some (writerError e), refused fw e)"
  using ensureSpace_refused[OF assms] by (simp add: WriteByte_def)

lemma Write_refused:
  assumes "fw_err fw = None" "fw_pos fw = 0"
    and "respond (fw_w fw) (written (fw_w fw)) [] = (k, Some e)" and "p \<noteq> []"
  shows "Write fw p = Some (Return (0, Some (writerError e), refused fw e))"
  using assms(1,4) ensureSpace_refused[OF assms(1,2,3)]
  by (subst Write_def, simp, subst Write_loop.simps) simp

lemma WriteBytes_refused:
  assumes "fw_err fw = None" "fw_pos fw = 0"
    and "respond (fw_w fw) (written (fw_w fw)) [] = (k, Some e)" and "p \<noteq> []"
  shows "WriteBytes fw p = Some (Return (Some (writerError e), refused fw e))"
  using Write_refused[OF assms] by (simp add: WriteBytes_def)

lemma WriteLine_refused:
  assumes "fw_err fw = None" "fw_pos fw = 0"
    and "respond (fw_w fw) (written (fw_w fw)) [] = (k, Some e)"
  shows "WriteLine fw s = Some (Return (Some (writerError e), refused fw e))"
proof (cases "s = []")
  case True
  then have "WriteString fw s = Some (Return (None, fw))"
    using assms(1)
    by (simp add: WriteString_def WriteBytes_def Write_def Write_loop.simps[of fw "[]"])
  with WriteByte_refused[OF assms, of "CHR 0x0A"] show ?thesis by (simp add: WriteLine_def)
next
  case False
  from WriteBytes_refused[OF assms False] show ?thesis by (simp add: WriteLine_def WriteString_def)
qed

lemma AppendInt_not_Nil: "AppendInt [] i \<noteq> []"
  by (simp add: AppendInt_def decimal_not_Nil)

lemma AppendUint_not_Nil: "AppendUint [] u \<noteq> []"
  by (simp add: AppendUint_def decimal_not_Nil)

lemma scratch_probed:
  assumes "fw_err fw = None" "fw_pos fw = 0" "0 < length (fw_buf fw)" "t \<noteq> []"
  shows "\<exists>e fw' more. WriteBytes (fw\<lparr>fw_scratch := t\<rparr>) t = Some (Return (e, fw')) \<and>
           written (fw_w fw') = written (fw_w fw) @ [] # more"
  using WriteBytes_probed[of "fw\<lparr>fw_scratch := t\<rparr>" t] assms by auto

lemma scratch_refused:
  assumes "fw_err fw = None" "fw_pos fw = 0"
    and "respond (fw_w fw) (written (fw_w fw)) [] = (k, Some e)" and "t \<noteq> []"
  shows "WriteBytes (fw\<lparr>fw_scratch := t\<rparr>) t =
           Some (Return (Some (writerError e), (refused fw e)\<lparr>fw_scratch := t\<rparr>))"
proof -
  have "refused (fw\<lparr>fw_scratch := t\<rparr>) e = (refused fw e)\<lparr>fw_scratch := t\<rparr>"
    by (simp add: refused_def probed_def)
  with WriteBytes_refused[of "fw\<lparr>fw_scratch := t\<rparr>" k e t] assms show ?thesis by simp
qed

section \<open>The claims\<close>

text \<open>
  C1. Every list of \<open>int\<close> values, each followed by a whitespace byte, written through a fresh
  writer to a sink that accepts every byte (\<open>bytes.Buffer\<close>) and flushed, leaves in the sink
  the decimal texts of the values, each followed by its separator; and as many \<open>NextInt\<close>
  calls as there are values, on a fresh reader over those bytes, return exactly the values,
  in order (over \<open>strings.NewReader\<close>, and so over every well-behaved source that delivers
  those bytes, however it cuts them).
\<close>

theorem int_round_trip:
  assumes "list_all (\<lambda>(v, s). isSpace s) xs"
  shows "\<exists>fw1 fw2.
           writeInts (NewWriter bytes_Buffer) xs = Some fw1 \<and>
           Flush fw1 = Return (None, fw2) \<and>
           concat (written (fw_w fw2)) = intsText xs \<and>
           readInts (newTestReader (concat (written (fw_w fw2)))) (length xs) = Some (map fst xs) \<and>
           (\<forall>src. wellBehaved defaultReaderBufSize (script src) \<and>
                  content (script src) = concat (written (fw_w fw2)) \<longrightarrow>
                  readInts (NewReader src) (length xs) = Some (map fst xs))"
proof -
  from writeInts_ok[OF winv_NewWriter, of xs] obtain fw1 where
    w: "writeInts (NewWriter bytes_Buffer) xs = Some fw1" "winv fw1" "woutput fw1 = intsText xs"
    by (auto simp: woutput_NewWriter)
  have f: "Flush fw1 = Return (None, flushed fw1)" by (rule Flush_ok[OF w(2)])
  have "fw_pos (flushed fw1) = 0" by (simp add: flushed_def)
  then have "concat (written (fw_w (flushed fw1))) = woutput (flushed fw1)"
    by (simp add: woutput_def)
  with w(3) have o: "concat (written (fw_w (flushed fw1))) = intsText xs"
    by (simp add: woutput_flushed)
  have r1: "readInts (newTestReader (intsText xs)) (length xs) = Some (map fst xs)"
    by (rule readInts_ok[OF good_newTestReader assms])
       (simp add: rest_newTestReader dropWhile_intsText)
  have r2: "readInts (NewReader src) (length xs) = Some (map fst xs)"
    if "wellBehaved defaultReaderBufSize (script src) \<and> content (script src) = intsText xs" for src
    by (rule readInts_ok[OF _ assms])
       (use that in \<open>simp_all add: good_NewReader rest_NewReader dropWhile_intsText\<close>)
  from w(1) f o r1 r2 show ?thesis by auto
qed


theorem int_round_trip_witness:
  "list_all (\<lambda>(v, s). isSpace s) sampleInts \<and>
   intsText sampleInts = ''-9223372036854775808 0\<newline>-456'' @ [CHR 0x09] @ ''9223372036854775807 '' \<and>
   (\<exists>fw1 fw2.
      writeInts (NewWriter bytes_Buffer) sampleInts = Some fw1 \<and>
      Flush fw1 = Return (None, fw2) \<and>
      concat (written (fw_w fw2)) = intsText sampleInts \<and>
      readInts (newTestReader (concat (written (fw_w fw2)))) (length sampleInts) =
        Some [- 9223372036854775808, 0, - 456, 9223372036854775807])"
proof -
  have h: "list_all (\<lambda>(v, s). isSpace s) sampleInts"
    by (simp add: sampleInts_def isSpace_def)
  have m: "map fst sampleInts = [- 9223372036854775808, 0, - 456, 9223372036854775807]"
    by (simp add: sampleInts_def)
  from int_round_trip[OF h] obtain fw1 fw2 where
    r: "writeInts (NewWriter bytes_Buffer) sampleInts = Some fw1"
       "Flush fw1 = Return (None, fw2)"
       "concat (written (fw_w fw2)) = intsText sampleInts"
       "readInts (newTestReader (concat (written (fw_w fw2)))) (length sampleInts) = Some (map fst sampleInts)"
    by blast
  from r(4) m have "readInts (newTestReader (concat (written (fw_w fw2)))) (length sampleInts) =
        Some [- 9223372036854775808, 0, - 456, 9223372036854775807]" by (simp only:)
  with h intsText_sampleInts r(1,2,3) show ?thesis by blast
qed

text \<open>
  C2. The code at the failing input: over the input \<open>abc\<close>, an unterminated final line,
  \<open>NextLine\<close> returns \<open>ab\<close>; over the input \<open>a\<close> it returns \<open>io.EOF\<close>, although a byte
  remained. The byte that \<open>ReadByte\<close> hands over together with \<open>io.EOF\<close> is dropped.
\<close>

theorem NextLine_unterminated_line:
  "(\<exists>fr'. NextLine (newTestReader ''abc'') = Return (''ab'', None, fr')) \<and>
   (\<exists>fr'. NextLine (newTestReader ''a'') = Return ([], Some EOF, fr'))"
  using NextLine_loop_unterminated[of "newTestReader ''abc''" "''ab''" "CHR ''c''" "[]"]
        NextLine_loop_unterminated[of "newTestReader ''a''" "[]" "CHR ''a''" "[]"]
  by (auto simp add: good_newTestReader rest_newTestReader NextLine_def NextLine_end_def)





text \<open>
  C4. \<open>Flush\<close>: with a sticky error it returns that error and leaves the writer, its sink
  included, as it is; with an empty buffer it returns success and leaves the writer, its
  sink included, as it is; otherwise the sink receives one call, with all the buffered
  bytes, a failure \<open>e\<close> of that call is returned and \<open>writerError{e}\<close> becomes the sticky
  error, a count below the number of buffered bytes makes \<open>writerError{io.ErrShortWrite}\<close>
  the sticky error and the result, and the position is reset to zero exactly when the call
  neither fails nor is short.
\<close>

theorem Flush_contract:
  assumes "respond (fw_w fw) (written (fw_w fw)) (take (nat (fw_pos fw)) (fw_buf fw)) = (n, r)"
  shows "case fw_err fw of
           Some e \<Rightarrow> Flush fw = Return (Some e, fw)
         | None \<Rightarrow>
             if fw_pos fw = 0 then Flush fw = Return (None, fw)
             else if fw_pos fw < 0 \<or> int (length (fw_buf fw)) < fw_pos fw then Flush fw = Panic
             else
               (\<exists>res fw'. Flush fw = Return (res, fw') \<and>
                  written (fw_w fw') = written (fw_w fw) @ [take (nat (fw_pos fw)) (fw_buf fw)] \<and>
                  fw_buf fw' = fw_buf fw \<and>
                  fw_pos fw' = (if r = None \<and> fw_pos fw \<le> n then 0 else fw_pos fw) \<and>
                  fw_err fw' =
                    (case r of Some e \<Rightarrow> Some (writerError e)
                     | None \<Rightarrow> if n < fw_pos fw then Some (writerError ErrShortWrite) else None) \<and>
                  res =
                    (case r of Some e \<Rightarrow> Some e
                     | None \<Rightarrow> if n < fw_pos fw then Some (writerError ErrShortWrite) else None))"
  using assms
  by (auto simp: Flush_def slice_to_def sink_Write_def split: option.splits)

theorem Flush_contract_witness:
  "respond (fw_w twoBuffered) (written (fw_w twoBuffered)) (take (nat (fw_pos twoBuffered)) (fw_buf twoBuffered)) = (1, None) \<and>
   (\<exists>fw'. Flush twoBuffered = Return (Some (writerError ErrShortWrite), fw') \<and>
      written (fw_w fw') = [''ab''] \<and> fw_pos fw' = 2 \<and> fw_err fw' = Some (writerError ErrShortWrite))"
  using Flush_contract[of twoBuffered 1 None]
  by (auto simp: twoBuffered_def NewWriter_def shortSink_def)

text \<open>
  C5, as stated, fails for \<open>SkipSpaces\<close>: after \<open>ReadByte\<close> has reported \<open>io.EOF\<close> on the empty
  input, \<open>SkipSpaces\<close> returns success, not that error.
\<close>

theorem SkipSpaces_after_EOF:
  "ReadByte (newTestReader []) = Return (CHR 0x00, Some EOF, atEOF) \<and>
   SkipSpaces atEOF = Return (None, atEOF)"
  by (simp add: newTestReader_def strings_NewReader_def chunks_Nil NewReader_def atEOF_def
      ReadByte_def ensureData_def fill_def Read_def SkipSpaces_terminal)

text \<open>
  C5, amended. Once an operation of the read engine (\<open>ReadByte\<close>, \<open>PeekByte\<close>, \<open>SkipSpaces\<close>,
  \<open>NextInt\<close>, \<open>NextInt64\<close>, \<open>NextUint64\<close>, \<open>NextWord\<close>, \<open>NextLine\<close>, \<open>NextFloat64\<close>) has
  reported an end-of-input or I/O error to its caller, the reader it leaves holds a sticky
  error, which is the error reported (\<open>NextWord\<close>, \<open>NextLine\<close> and \<open>NextFloat64\<close> report
  \<open>io.EOF\<close> itself for a sticky error that is an end-of-input error). From then on
  \<open>ReadByte\<close>, \<open>PeekByte\<close>, \<open>NextInt\<close>, \<open>NextInt64\<close> and \<open>NextUint64\<close> return the sticky error on
  every call, \<open>NextWord\<close>, \<open>NextLine\<close> and \<open>NextFloat64\<close> return it too (as \<open>io.EOF\<close> itself when
  it is an end-of-input error), and \<open>SkipSpaces\<close> returns it unless it is an end-of-input
  error, for which \<open>SkipSpaces\<close> returns success. None of these calls changes the reader:
  the source receives no further call.
\<close>

theorem reported_error_sticky:
  assumes "reported ParseFloat fr e fr'"
  shows "\<exists>e0. fr_err fr' = Some e0 \<and> (e = e0 \<or> e = asEOF e0) \<and>
           ReadByte fr' = Return (CHR 0x00, Some e0, fr') \<and>
           PeekByte fr' = Return (CHR 0x00, Some e0, fr') \<and>
           NextInt fr' = Return (0, Some e0, fr') \<and>
           NextInt64 fr' = Return (0, Some e0, fr') \<and>
           NextUint64 fr' = Return (0, Some e0, fr') \<and>
           NextWord fr' = Return ([], Some (asEOF e0), fr') \<and>
           NextLine fr' = Return ([], Some (asEOF e0), fr') \<and>
           NextFloat64 ParseFloat fr' = Return (0, Some (asEOF e0), fr') \<and>
           SkipSpaces fr' = Return (if errors_Is_EOF e0 then None else Some e0, fr')"
proof -
  from reported_terminal[OF assms] obtain e0 where
    t: "terminal fr' e0" "e = e0 \<or> e = asEOF e0" by blast
  from terminal_calls[OF t(1), of ParseFloat] t show ?thesis
    by (auto simp: terminal_def)
qed

theorem reported_error_sticky_witness:
  "reported (\<lambda>t. Inl EOF :: error + int) (newTestReader []) EOF atEOF \<and>
   fr_err atEOF = Some EOF \<and>
   ReadByte atEOF = Return (CHR 0x00, Some EOF, atEOF) \<and>
   PeekByte atEOF = Return (CHR 0x00, Some EOF, atEOF) \<and>
   NextInt atEOF = Return (0, Some EOF, atEOF) \<and>
   NextInt64 atEOF = Return (0, Some EOF, atEOF) \<and>
   NextUint64 atEOF = Return (0, Some EOF, atEOF) \<and>
   NextWord atEOF = Return ([], Some EOF, atEOF) \<and>
   NextLine atEOF = Return ([], Some EOF, atEOF) \<and>
   SkipSpaces atEOF = Return (None, atEOF)"
proof -
  have "ReadByte (newTestReader []) = Return (CHR 0x00, Some EOF, atEOF)"
    by (simp add: newTestReader_def strings_NewReader_def chunks_Nil NewReader_def atEOF_def
        ReadByte_def ensureData_def fill_def Read_def)
  then have h: "reported (\<lambda>t. Inl EOF :: error + int) (newTestReader []) EOF atEOF"
    by (simp add: reported_def errOf_def)
  have e: "fr_err atEOF = Some EOF" by (simp add: atEOF_def)
  from reported_error_sticky[OF h] h e show ?thesis
    by (auto simp: asEOF_def)
qed



text \<open>
  C7. Over a well-behaved source, \<open>SkipSpaces\<close> returns success (no error, no panic) on
  every input, also when the whitespace runs to the end of the input, and what it leaves
  unread is the input without its maximal leading run of bytes from space (0x20), tab (0x09),
  carriage return (0x0D) and line feed (0x0A).
\<close>

theorem SkipSpaces_maximal_run:
  assumes "good fr"
  shows "\<exists>fr'. SkipSpaces fr = Return (None, fr') \<and> good fr' \<and>
           rest fr' = dropWhile (\<lambda>b. b \<in> {CHR 0x20, CHR 0x09, CHR 0x0D, CHR 0x0A}) (rest fr)"
proof -
  have "isSpace = (\<lambda>b. b \<in> {CHR 0x20, CHR 0x09, CHR 0x0D, CHR 0x0A})"
    by (auto simp: isSpace_def fun_eq_iff)
  with SkipSpaces_good[OF assms] show ?thesis by auto
qed

theorem SkipSpaces_maximal_run_witness:
  "good (newTestReader [CHR 0x20, CHR 0x0A, CHR 0x09, CHR 0x0D, CHR ''x'', CHR 0x20]) \<and>
   (\<exists>fr'. SkipSpaces (newTestReader [CHR 0x20, CHR 0x0A, CHR 0x09, CHR 0x0D, CHR ''x'', CHR 0x20])
             = Return (None, fr') \<and> good fr' \<and> rest fr' = [CHR ''x'', CHR 0x20])"
  using SkipSpaces_maximal_run[of "newTestReader [CHR 0x20, CHR 0x0A, CHR 0x09, CHR 0x0D, CHR ''x'', CHR 0x20]"]
  by (simp add: good_newTestReader rest_newTestReader)





text \<open>
  C9. When \<open>ReadByte\<close> consumes the last remaining byte of the input (of a well-behaved
  source, among them one that then yields zero bytes and no failure), that same call
  returns the byte, the correct next byte of the input, together with \<open>io.EOF\<close>, and
  \<open>io.EOF\<close> is the sticky error from then on.
\<close>

theorem ReadByte_last_byte:
  assumes "good fr" and "rest fr = [b]"
  shows "\<exists>fr'. ReadByte fr = Return (b, Some EOF, fr') \<and> fr_err fr' = Some EOF \<and>
               good fr' \<and> rest fr' = []"
proof -
  from ReadByte_good[OF assms(1)] assms(2) obtain fr' where
    r: "good fr'" "rest fr' = []" "ReadByte fr = Return (b, Some EOF, fr')" by auto
  from ReadByte_err[OF r(3)] r show ?thesis by auto
qed

theorem ReadByte_last_byte_witness:
  "good (NewReader \<lparr>script = [(''a'', 1, None), ([], 0, None)], calls = 0\<rparr>) \<and>
   rest (NewReader \<lparr>script = [(''a'', 1, None), ([], 0, None)], calls = 0\<rparr>) = ''a'' \<and>
   (\<exists>fr'. ReadByte (NewReader \<lparr>script = [(''a'', 1, None), ([], 0, None)], calls = 0\<rparr>)
            = Return (CHR ''a'', Some EOF, fr') \<and> fr_err fr' = Some EOF \<and> good fr' \<and> rest fr' = [])"
  using ReadByte_last_byte[of "NewReader \<lparr>script = [(''a'', 1, None), ([], 0, None)], calls = 0\<rparr>" "CHR ''a''"]
  by (simp add: good_NewReader rest_NewReader defaultReaderBufSize_def)

text \<open>
  C10, as stated, fails for an empty sequence: \<open>Write\<close> of no bytes on a fresh writer returns
  at once, with success even over a sink whose every call fails, and the sink receives no
  call.
\<close>

theorem Write_empty_no_probe:
  "Write (NewWriter errorWriter) [] = Some (Return (0, None, NewWriter errorWriter)) \<and>
   written (fw_w (NewWriter errorWriter)) = []"
proof -
  have "Write_loop (NewWriter errorWriter) [] 0 = Some (Return (0, None, NewWriter errorWriter))"
    by (subst Write_loop.simps) simp
  then show ?thesis by (simp add: Write_def NewWriter_def errorWriter_def)
qed

text \<open>
  C10, amended. Over any sink, an operation that appends at least one byte (\<open>WriteByte\<close>;
  \<open>Write\<close>, \<open>WriteBytes\<close> and \<open>WriteString\<close> of a non-empty sequence; \<open>WriteLine\<close>; \<open>WriteInt\<close>,
  \<open>WriteInt64\<close> and \<open>WriteUint64\<close>; \<open>WriteFloat64\<close>, the text of the value not being empty),
  begun with no sticky error and an empty buffer of positive length, returns, and the sink
  has received a zero-length write before any other call of the operation. If that write
  fails with \<open>e\<close>, the operation returns \<open>writerError{e}\<close>, which becomes the sticky error; no
  byte is buffered and nothing else of the writer changes, except that \<open>WriteInt\<close>,
  \<open>WriteInt64\<close>, \<open>WriteUint64\<close> and \<open>WriteFloat64\<close> leave the text of the value in \<open>scratch\<close>.
\<close>

theorem probe_before_append:
  assumes "fw_err fw = None" and "fw_pos fw = 0" and "0 < length (fw_buf fw)"
    and "respond (fw_w fw) (written (fw_w fw)) [] = (k, r)" and "p \<noteq> []"
    and "AppendFloat [] x prec \<noteq> []"
  shows "(\<exists>e fw' more. WriteByte fw b = Return (e, fw') \<and>
            written (fw_w fw') = written (fw_w fw) @ [] # more) \<and>
         (\<exists>n e fw' more. Write fw p = Some (Return (n, e, fw')) \<and>
            written (fw_w fw') = written (fw_w fw) @ [] # more) \<and>
         (\<exists>e fw' more. WriteBytes fw p = Some (Return (e, fw')) \<and>
            written (fw_w fw') = written (fw_w fw) @ [] # more) \<and>
         (\<exists>e fw' more. WriteString fw p = Some (Return (e, fw')) \<and>
            written (fw_w fw') = written (fw_w fw) @ [] # more) \<and>
         (\<exists>e fw' more. WriteLine fw s = Some (Return (e, fw')) \<and>
            written (fw_w fw') = written (fw_w fw) @ [] # more) \<and>
         (\<exists>e fw' more. WriteInt fw v = Some (Return (e, fw')) \<and>
            written (fw_w fw') = written (fw_w fw) @ [] # more) \<and>
         (\<exists>e fw' more. WriteInt64 fw v64 = Some (Return (e, fw')) \<and>
            written (fw_w fw') = written (fw_w fw) @ [] # more) \<and>
         (\<exists>e fw' more. WriteUint64 fw u = Some (Return (e, fw')) \<and>
            written (fw_w fw') = written (fw_w fw) @ [] # more) \<and>
         (\<exists>e fw' more. WriteFloat64 AppendFloat fw x prec = Some (Return (e, fw')) \<and>
            written (fw_w fw') = written (fw_w fw) @ [] # more) \<and>
         (case r of None \<Rightarrow> True
          | Some e \<Rightarrow>
              WriteByte fw b = Return (Some (writerError e), refused fw e) \<and>
              Write fw p = Some (Return (0, Some (writerError e), refused fw e)) \<and>
              WriteBytes fw p = Some (Return (Some (writerError e), refused fw e)) \<and>
              WriteString fw p = Some (Return (Some (writerError e), refused fw e)) \<and>
              WriteLine fw s = Some (Return (Some (writerError e), refused fw e)) \<and>
              WriteInt fw v =
                Some (Return (Some (writerError e),
                              (refused fw e)\<lparr>fw_scratch := AppendInt [] (sint v)\<rparr>)) \<and>
              WriteInt64 fw v64 =
                Some (Return (Some (writerError e),
                              (refused fw e)\<lparr>fw_scratch := AppendInt [] (sint v64)\<rparr>)) \<and>
              WriteUint64 fw u =
                Some (Return (Some (writerError e),
                              (refused fw e)\<lparr>fw_scratch := AppendUint [] (unat u)\<rparr>)) \<and>
              WriteFloat64 AppendFloat fw x prec =
                Some (Return (Some (writerError e),
                              (refused fw e)\<lparr>fw_scratch := AppendFloat [] x prec\<rparr>)))"
proof -
  note a = assms(1,2,3)
  have c1: "\<exists>e fw' more. WriteByte fw b = Return (e, fw') \<and>
            written (fw_w fw') = written (fw_w fw) @ [] # more"
    using WriteByte_probed[OF a, of b] by blast
  have c2: "\<exists>n e fw' more. Write fw p = Some (Return (n, e, fw')) \<and>
            written (fw_w fw') = written (fw_w fw) @ [] # more"
    using Write_probed[OF a assms(5)] by blast
  have c3: "\<exists>e fw' more. WriteBytes fw p = Some (Return (e, fw')) \<and>
            written (fw_w fw') = written (fw_w fw) @ [] # more"
    using WriteBytes_probed[OF a assms(5)] by blast
  have c4: "\<exists>e fw' more. WriteString fw p = Some (Return (e, fw')) \<and>
            written (fw_w fw') = written (fw_w fw) @ [] # more"
    using c3 by (simp add: WriteString_def)
  have c5: "\<exists>e fw' more. WriteLine fw s = Some (Return (e, fw')) \<and>
            written (fw_w fw') = written (fw_w fw) @ [] # more"
    by (rule WriteLine_probed[OF a])
  have c6: "\<exists>e fw' more. WriteInt fw v = Some (Return (e, fw')) \<and>
            written (fw_w fw') = written (fw_w fw) @ [] # more"
    using scratch_probed[OF a AppendInt_not_Nil, of "sint v"] by (simp add: WriteInt_def Let_def)
  have c7: "\<exists>e fw' more. WriteInt64 fw v64 = Some (Return (e, fw')) \<and>
            written (fw_w fw') = written (fw_w fw) @ [] # more"
    using scratch_probed[OF a AppendInt_not_Nil, of "sint v64"] by (simp add: WriteInt64_def Let_def)
  have c8: "\<exists>e fw' more. WriteUint64 fw u = Some (Return (e, fw')) \<and>
            written (fw_w fw') = written (fw_w fw) @ [] # more"
    using scratch_probed[OF a AppendUint_not_Nil, of "unat u"] by (simp add: WriteUint64_def Let_def)
  have c9: "\<exists>e fw' more. WriteFloat64 AppendFloat fw x prec = Some (Return (e, fw')) \<and>
            written (fw_w fw') = written (fw_w fw) @ [] # more"
    using scratch_probed[OF a assms(6)] by (simp add: WriteFloat64_def Let_def)
  have f: "WriteByte fw b = Return (Some (writerError e), refused fw e) \<and>
              Write fw p = Some (Return (0, Some (writerError e), refused fw e)) \<and>
              WriteBytes fw p = Some (Return (Some (writerError e), refused fw e)) \<and>
              WriteString fw p = Some (Return (Some (writerError e), refused fw e)) \<and>
              WriteLine fw s = Some (Return (Some (writerError e), refused fw e)) \<and>
              WriteInt fw v =
                Some (Return (Some (writerError e),
                              (refused fw e)\<lparr>fw_scratch := AppendInt [] (sint v)\<rparr>)) \<and>
              WriteInt64 fw v64 =
                Some (Return (Some (writerError e),
                              (refused fw e)\<lparr>fw_scratch := AppendInt [] (sint v64)\<rparr>)) \<and>
              WriteUint64 fw u =
                Some (Return (Some (writerError e),
                              (refused fw e)\<lparr>fw_scratch := AppendUint [] (unat u)\<rparr>)) \<and>
              WriteFloat64 AppendFloat fw x prec =
                Some (Return (Some (writerError e),
                              (refused fw e)\<lparr>fw_scratch := AppendFloat [] x prec\<rparr>))"
    if "r = Some e" for e
  proof -
    from assms(4) that have rs: "respond (fw_w fw) (written (fw_w fw)) [] = (k, Some e)" by simp
    note h = assms(1,2) rs
    from WriteByte_refused[OF h, of b] Write_refused[OF h assms(5)] WriteBytes_refused[OF h assms(5)]
      WriteLine_refused[OF h, of s]
      scratch_refused[OF h AppendInt_not_Nil, of "sint v"]
      scratch_refused[OF h AppendInt_not_Nil, of "sint v64"]
      scratch_refused[OF h AppendUint_not_Nil, of "unat u"]
      scratch_refused[OF h assms(6)]
    show ?thesis
      by (simp add: WriteString_def WriteInt_def WriteInt64_def WriteUint64_def WriteFloat64_def Let_def)
  qed
  have c10: "(case r of None \<Rightarrow> True
          | Some e \<Rightarrow>
              WriteByte fw b = Return (Some (writerError e), refused fw e) \<and>
              Write fw p = Some (Return (0, Some (writerError e), refused fw e)) \<and>
              WriteBytes fw p = Some (Return (Some (writerError e), refused fw e)) \<and>
              WriteString fw p = Some (Return (Some (writerError e), refused fw e)) \<and>
              WriteLine fw s = Some (Return (Some (writerError e), refused fw e)) \<and>
              WriteInt fw v =
                Some (Return (Some (writerError e),
                              (refused fw e)\<lparr>fw_scratch := AppendInt [] (sint v)\<rparr>)) \<and>
              WriteInt64 fw v64 =
                Some (Return (Some (writerError e),
                              (refused fw e)\<lparr>fw_scratch := AppendInt [] (sint v64)\<rparr>)) \<and>
              WriteUint64 fw u =
                Some (Return (Some (writerError e),
                              (refused fw e)\<lparr>fw_scratch := AppendUint [] (unat u)\<rparr>)) \<and>
              WriteFloat64 AppendFloat fw x prec =
                Some (Return (Some (writerError e),
                              (refused fw e)\<lparr>fw_scratch := AppendFloat [] x prec\<rparr>)))"
    using f by (cases r) simp_all
  from c1 c2 c3 c4 c5 c6 c7 c8 c9 c10 show ?thesis by (intro conjI)
qed

theorem probe_before_append_witness:
  "fw_err (NewWriter errorWriter) = None \<and> fw_pos (NewWriter errorWriter) = 0 \<and>
   0 < length (fw_buf (NewWriter errorWriter)) \<and>
   respond (fw_w (NewWriter errorWriter)) (written (fw_w (NewWriter errorWriter))) [] =
     (0, Some (errors_New ''write error'')) \<and>
   written (fw_w (refused (NewWriter errorWriter) (errors_New ''write error''))) = [[]] \<and>
   fw_err (refused (NewWriter errorWriter) (errors_New ''write error'')) =
     Some (writerError (errors_New ''write error'')) \<and>
   WriteByte (NewWriter errorWriter) (CHR ''x'') =
     Return (Some (writerError (errors_New ''write error'')),
             refused (NewWriter errorWriter) (errors_New ''write error'')) \<and>
   Write (NewWriter errorWriter) ''test'' =
     Some (Return (0, Some (writerError (errors_New ''write error'')),
             refused (NewWriter errorWriter) (errors_New ''write error''))) \<and>
   WriteLine (NewWriter errorWriter) [] =
     Some (Return (Some (writerError (errors_New ''write error'')),
             refused (NewWriter errorWriter) (errors_New ''write error''))) \<and>
   WriteInt (NewWriter errorWriter) 7 =
     Some (Return (Some (writerError (errors_New ''write error'')),
             (refused (NewWriter errorWriter) (errors_New ''write error''))\<lparr>fw_scratch := ''7''\<rparr>))"
proof -
  have h1: "fw_err (NewWriter errorWriter) = None" by (simp add: NewWriter_def)
  have h2: "fw_pos (NewWriter errorWriter) = 0" by (simp add: NewWriter_def)
  have h3: "0 < length (fw_buf (NewWriter errorWriter))"
    by (simp add: NewWriter_def defaultWriterBufSize_def)
  have h4: "respond (fw_w (NewWriter errorWriter)) (written (fw_w (NewWriter errorWriter))) [] =
     (0, Some (errors_New ''write error''))" by (simp add: NewWriter_def errorWriter_def)
  have h5: "''test'' \<noteq> []" by simp
  have h7: "written (fw_w (refused (NewWriter errorWriter) (errors_New ''write error''))) = [[]]"
    by (simp add: refused_def probed_def NewWriter_def errorWriter_def)
  have h8: "fw_err (refused (NewWriter errorWriter) (errors_New ''write error'')) =
     Some (writerError (errors_New ''write error''))"
    by (simp add: refused_def)
  have h9: "AppendInt [] (sint (7::go_int)) = ''7''"
    by (simp add: AppendInt_def decimal.simps digitChar_values)
  from probe_before_append[where AppendFloat = "\<lambda>dst (x::int) (prec::int). dst @ ''1.5''"
      and x = 0 and prec = 1 and b = "CHR ''x''" and s = "[]" and v = 7 and ?v64.0 = 0 and u = 0,
      OF h1 h2 h3 h4 h5] h1 h2 h3 h4 h7 h8 h9
  show ?thesis by simp
qed

end
